theory Spec2Isabelle
  imports Main "HOL-Library.Sublist"
begin

section \<open>JavaScript values and the object heap\<close>

text \<open>
  The two composables of \<^verbatim>\<open>src/index.ts\<close> (\<^verbatim>\<open>useForm\<close> and \<^verbatim>\<open>useFormComponent\<close>) hold
  references to JavaScript objects: the caller's \<^verbatim>\<open>initialData\<close>, the controller's own copy,
  the caller's reactive \<^verbatim>\<open>input\<close> and the snapshot taken of it. Objects live in a heap and a
  value is a primitive or a reference, so that copying a reference and copying an object are
  different things, as they are in the source.

  Numbers are the integers (the paths of validation issues hold strings and integer
  indices); a \<^verbatim>\<open>Date\<close> object is represented by the string its \<^verbatim>\<open>toJSON()\<close> returns.
  The properties of an object are kept in insertion order.
\<close>

type_synonym addr = nat

datatype val = VUndefined | VNull | VBool bool | VNum int | VStr string | VRef addr

datatype obj = ObjO "(string \<times> val) list" | ArrO "val list" | DateO string

type_synonym heap = "obj list"

text \<open>A value read in depth, as the tree of everything reachable from it.\<close>

datatype jsval = JUndefined | JNull | JBool bool | JNum int | JStr string | JDate string
  | JArr "jsval list" | JObj "(string \<times> jsval) list"

datatype js_error = TypeError | SyntaxError

fun collect :: "('e + 'a) list \<Rightarrow> 'e + 'a list" where
  "collect [] = Inr []"
| "collect (Inl e # rs) = Inl e"
| "collect (Inr x # rs) = (case collect rs of Inl e \<Rightarrow> Inl e | Inr xs \<Rightarrow> Inr (x # xs))"

text \<open>
  \<open>snapshot h stack v\<close> walks the object graph below \<open>v\<close> the way \<^verbatim>\<open>JSON.stringify\<close>
  does: \<open>stack\<close> holds the objects being visited, and meeting one of them again is the
  \<^verbatim>\<open>TypeError\<close> "Converting circular structure to JSON". An object that is shared but not
  its own ancestor is read twice. A reference outside the heap cannot exist in JavaScript;
  it is refused like a cycle.
\<close>

function snapshot :: "heap \<Rightarrow> addr list \<Rightarrow> val \<Rightarrow> js_error + jsval" where
  "snapshot h stack VUndefined = Inr JUndefined"
| "snapshot h stack VNull = Inr JNull"
| "snapshot h stack (VBool b) = Inr (JBool b)"
| "snapshot h stack (VNum n) = Inr (JNum n)"
| "snapshot h stack (VStr s) = Inr (JStr s)"
| "snapshot h stack (VRef a) =
     (if a \<in> set stack \<or> \<not> a < length h then Inl TypeError
      else case h ! a of
          DateO s \<Rightarrow> Inr (JDate s)
        | ArrO vs \<Rightarrow>
            (case collect (map (snapshot h (a # stack)) vs) of
               Inl e \<Rightarrow> Inl e | Inr ts \<Rightarrow> Inr (JArr ts))
        | ObjO kvs \<Rightarrow>
            (case collect (map (\<lambda>kv. snapshot h (a # stack) (snd kv)) kvs) of
               Inl e \<Rightarrow> Inl e | Inr ts \<Rightarrow> Inr (JObj (zip (map fst kvs) ts))))"
  by pat_completeness auto
termination
proof (relation "measure (\<lambda>(h, stack, v). card ({..<length h} - set stack))")
  fix h :: heap and stack :: "addr list" and a :: addr
  assume "\<not> (a \<in> set stack \<or> \<not> a < length h)"
  then have "{..<length h} - set (a # stack) \<subset> {..<length h} - set stack" by auto
  then have less: "card ({..<length h} - set (a # stack)) < card ({..<length h} - set stack)"
    by (intro psubset_card_mono) simp
  {
    fix x :: "string \<times> val"
    show "((h, a # stack, snd x), h, stack, VRef a)
        \<in> measure (\<lambda>(h, stack, v). card ({..<length h} - set stack))"
      using less by simp
  next
    fix x :: val
    show "((h, a # stack, x), h, stack, VRef a)
        \<in> measure (\<lambda>(h, stack, v). card ({..<length h} - set stack))"
      using less by simp
  }
qed simp

text \<open>
  The JSON text of a tree, itself written as a tree: \<^verbatim>\<open>JSON.stringify\<close> gives
  \<^verbatim>\<open>undefined\<close> (here \<open>None\<close>) for \<^verbatim>\<open>undefined\<close>, leaves a property whose value is
  \<^verbatim>\<open>undefined\<close> out of an object, writes \<^verbatim>\<open>null\<close> for it in an array, and writes a
  \<^verbatim>\<open>Date\<close> as the string of its \<^verbatim>\<open>toJSON()\<close>.
\<close>

fun json_of :: "jsval \<Rightarrow> jsval option" where
  "json_of JUndefined = None"
| "json_of (JDate s) = Some (JStr s)"
| "json_of (JArr xs) =
     Some (JArr (map (\<lambda>x. case json_of x of None \<Rightarrow> JNull | Some j \<Rightarrow> j) xs))"
| "json_of (JObj kvs) =
     Some (JObj (concat (map (\<lambda>kv. case json_of (snd kv) of
                                     None \<Rightarrow> [] | Some j \<Rightarrow> [(fst kv, j)]) kvs)))"
| "json_of v = Some v"

definition JSON_stringify :: "heap \<Rightarrow> val \<Rightarrow> js_error + jsval option" where
  "JSON_stringify h v =
     (case snapshot h [] v of Inl e \<Rightarrow> Inl e | Inr t \<Rightarrow> Inr (json_of t))"

text \<open>
  A tree is JSON-safe when it holds no \<^verbatim>\<open>undefined\<close> and no \<^verbatim>\<open>Date\<close>: the values that
  a JSON text gives back as they were.
\<close>

fun json_safe :: "jsval \<Rightarrow> bool" where
  "json_safe JUndefined = False"
| "json_safe (JDate s) = False"
| "json_safe (JArr xs) = list_all json_safe xs"
| "json_safe (JObj kvs) = list_all (\<lambda>kv. json_safe (snd kv)) kvs"
| "json_safe v = True"

text \<open>
  Building the value a tree denotes allocates every object of it at a fresh address, after
  its parts. This is what \<^verbatim>\<open>JSON.parse\<close> does with a JSON text, and what evaluating an
  object literal does.
\<close>

fun alloc :: "jsval \<Rightarrow> heap \<Rightarrow> val \<times> heap"
  and alloc_list :: "jsval list \<Rightarrow> heap \<Rightarrow> val list \<times> heap"
  and alloc_props :: "(string \<times> jsval) list \<Rightarrow> heap \<Rightarrow> (string \<times> val) list \<times> heap" where
  "alloc JUndefined h = (VUndefined, h)"
| "alloc JNull h = (VNull, h)"
| "alloc (JBool b) h = (VBool b, h)"
| "alloc (JNum n) h = (VNum n, h)"
| "alloc (JStr s) h = (VStr s, h)"
| "alloc (JDate s) h = (VRef (length h), h @ [DateO s])"
| "alloc (JArr xs) h = (case alloc_list xs h of (vs, h') \<Rightarrow> (VRef (length h'), h' @ [ArrO vs]))"
| "alloc (JObj kvs) h = (case alloc_props kvs h of (ps, h') \<Rightarrow> (VRef (length h'), h' @ [ObjO ps]))"
| "alloc_list [] h = ([], h)"
| "alloc_list (x # xs) h =
     (case alloc x h of (v, h1) \<Rightarrow> case alloc_list xs h1 of (vs, h2) \<Rightarrow> (v # vs, h2))"
| "alloc_props [] h = ([], h)"
| "alloc_props (kv # kvs) h =
     (case alloc (snd kv) h of (v, h1) \<Rightarrow>
        case alloc_props kvs h1 of (ps, h2) \<Rightarrow> ((fst kv, v) # ps, h2))"

text \<open>
  \<^verbatim>\<open>JSON.parse(undefined)\<close> parses the text "undefined" and throws a \<^verbatim>\<open>SyntaxError\<close>.
\<close>

definition JSON_parse :: "jsval option \<Rightarrow> heap \<Rightarrow> js_error + val \<times> heap" where
  "JSON_parse text h = (case text of None \<Rightarrow> Inl SyntaxError | Some j \<Rightarrow> Inr (alloc j h))"

text \<open>
  \<^verbatim>\<open>function deepClone<T>(obj: T): T { return JSON.parse(JSON.stringify(obj)) }\<close>
\<close>

definition deepClone :: "heap \<Rightarrow> val \<Rightarrow> js_error + val \<times> heap" where
  "deepClone h obj =
     (case JSON_stringify h obj of Inl e \<Rightarrow> Inl e | Inr text \<Rightarrow> JSON_parse text h)"

section \<open>Validation results and issue paths\<close>

text \<open>
  A path segment is \<^verbatim>\<open>string | number\<close>. \<^verbatim>\<open>Array.prototype.join\<close> turns each segment
  into a string (an integer into its decimal digits) and puts the separator between them.
\<close>

datatype seg = SStr string | SNum int

fun digits :: "nat \<Rightarrow> string" where
  "digits n =
     (if n < 10 then [''0123456789'' ! n]
      else digits (n div 10) @ [''0123456789'' ! (n mod 10)])"

declare digits.simps [simp del]

definition number_to_string :: "int \<Rightarrow> string" where
  "number_to_string i = (if i < 0 then CHR ''-'' # digits (nat (- i)) else digits (nat i))"

fun seg_to_string :: "seg \<Rightarrow> string" where
  "seg_to_string (SStr s) = s"
| "seg_to_string (SNum i) = number_to_string i"

fun join_strings :: "string \<Rightarrow> string list \<Rightarrow> string" where
  "join_strings sep [] = []"
| "join_strings sep [x] = x"
| "join_strings sep (x # y # ys) = x @ sep @ join_strings sep (y # ys)"

definition join :: "seg list \<Rightarrow> string \<Rightarrow> string" where
  "join segs sep = join_strings sep (map seg_to_string segs)"

text \<open>
  A \<^verbatim>\<open>z.ZodIssue\<close> with the fields the source reads, and
  \<^verbatim>\<open>z.SafeParseReturnType\<close>: \<^verbatim>\<open>{success: true, data}\<close> or
  \<^verbatim>\<open>{success: false, error}\<close>, the error holding the ordered issues
  (\<^verbatim>\<open>error.errors\<close> is Zod's alias of \<^verbatim>\<open>error.issues\<close>).
\<close>

record issue =
  path :: "seg list"
  message :: string

datatype 'o SafeParseReturnType = Success 'o | Failure "issue list"

fun success :: "'o SafeParseReturnType \<Rightarrow> bool" where
  "success (Success d) = True"
| "success (Failure es) = False"

text \<open>
  The schema is the validator's black box: two functions of the value handed to them, read
  in the heap of the moment of the call. \<open>safeParseAsync\<close> gives the result its promise
  resolves with.
\<close>

record 'o schema =
  safeParse :: "heap \<Rightarrow> val \<Rightarrow> 'o SafeParseReturnType"
  safeParseAsync :: "heap \<Rightarrow> val \<Rightarrow> 'o SafeParseReturnType"

text \<open>
  What a call does beyond changing the controller: how it completes (\<open>Inl\<close> is a thrown
  exception, \<open>Inr\<close> the returned value), and the arguments \<^verbatim>\<open>onSubmit\<close> was invoked with
  during the call. The callback is the caller's code: \<open>onSubmit d\<close> is \<open>Inr r\<close> when it
  returns \<open>r\<close> and \<open>Inl x\<close> when it throws \<open>x\<close>.
\<close>

datatype 'x exn = ZodError "issue list" | Raised 'x

record ('c, 'o, 's) effect =
  completion :: 'c
  onSubmit_calls :: "'o list"
  after :: 's

section \<open>The controller of \<^verbatim>\<open>useForm\<close>\<close>

text \<open>
  The reactive cells of one controller: \<^verbatim>\<open>displayErrors\<close> and \<^verbatim>\<open>changedAt\<close> in both
  variants; \<^verbatim>\<open>data\<close> (the value of the \<^verbatim>\<open>ref\<close>) and the captured \<^verbatim>\<open>initialData\<close> in
  \<^verbatim>\<open>useForm\<close>. A timestamp is a number of milliseconds.
\<close>

record controller =
  heap :: heap
  displayErrors :: bool
  changedAt :: "nat option"

record form = controller +
  initialData :: val
  data :: val

definition useForm :: "heap \<Rightarrow> val \<Rightarrow> js_error + form" where
  "useForm h initial =
     (case deepClone h initial of
        Inl e \<Rightarrow> Inl e
      | Inr (d, h') \<Rightarrow>
          Inr \<lparr>heap = h', displayErrors = False, changedAt = None,
               initialData = initial, data = d\<rparr>)"

text \<open>
  A \<^verbatim>\<open>computed\<close> is the value of its getter on the current cells. The schema and the
  \<^verbatim>\<open>onSubmit\<close> callback, which the closures of the source capture, are parameters of the
  operations that use them.
\<close>

definition parseResult :: "'o schema \<Rightarrow> form \<Rightarrow> 'o SafeParseReturnType" where
  "parseResult sch st = safeParse sch (heap st) (data st)"

definition isValid :: "'o schema \<Rightarrow> form \<Rightarrow> bool" where
  "isValid sch st = success (parseResult sch st)"

definition getErrors :: "'o schema \<Rightarrow> form \<Rightarrow> seg list \<Rightarrow> issue list" where
  "getErrors sch st qpath =
     (case parseResult sch st of
        Success d \<Rightarrow> []
      | Failure errors \<Rightarrow>
          filter (\<lambda>error. join (path error) ''.'' = join qpath ''.'') errors)"

definition hasChanged :: "'a controller_scheme \<Rightarrow> bool" where
  "hasChanged st = (changedAt st \<noteq> None)"

definition submit ::
  "'o schema \<Rightarrow> ('o \<Rightarrow> 'x + 'r) \<Rightarrow> form \<Rightarrow> ('x exn + unit, 'o, form) effect" where
  "submit sch onSubmit st =
     (case safeParse sch (heap st) (data st) of
        Success d \<Rightarrow>
          \<lparr>completion = (case onSubmit d of Inl x \<Rightarrow> Inl (Raised x) | Inr r \<Rightarrow> Inr ()),
           onSubmit_calls = [d], after = st\<rparr>
      | Failure errors \<Rightarrow>
          \<lparr>completion = Inr (), onSubmit_calls = [], after = st\<lparr>displayErrors := True\<rparr>\<rparr>)"

text \<open>
  \<^verbatim>\<open>reset\<close> assigns \<^verbatim>\<open>data.value = deepClone(initialData)\<close> first: when the copy throws,
  none of the three assignments has happened.
\<close>

definition reset :: "form \<Rightarrow> (js_error + unit) \<times> form" where
  "reset st =
     (case deepClone (heap st) (initialData st) of
        Inl e \<Rightarrow> (Inl e, st)
      | Inr (d, h') \<Rightarrow>
          (Inr (), st\<lparr>heap := h', data := d, changedAt := None, displayErrors := False\<rparr>))"

definition toggleDisplayErrors :: "'a controller_scheme \<Rightarrow> 'a controller_scheme" where
  "toggleDisplayErrors st = st\<lparr>displayErrors := \<not> displayErrors st\<rparr>"

section \<open>Reading and writing members\<close>

text \<open>
  The code that uses a form writes into its data (\<^verbatim>\<open>data.value.name = 'Bob'\<close>, a
  \<^verbatim>\<open>v-model\<close> on a field). \<open>get_member\<close> is \<^verbatim>\<open>base[s]\<close>: a \<^verbatim>\<open>TypeError\<close> (here
  \<open>None\<close>) on \<^verbatim>\<open>undefined\<close> and \<^verbatim>\<open>null\<close>, \<^verbatim>\<open>undefined\<close> for a member that is not
  there. \<open>set_member\<close> is \<^verbatim>\<open>base[s] = v\<close> on a plain object (the property is replaced
  in place or added last) and on an array at an index (the array grows as needed); any
  other assignment leaves the heap alone (\<open>None\<close>).
\<close>

fun put :: "string \<Rightarrow> val \<Rightarrow> (string \<times> val) list \<Rightarrow> (string \<times> val) list" where
  "put k v [] = [(k, v)]"
| "put k v (p # ps) = (if fst p = k then (k, v) # ps else p # put k v ps)"

text \<open>Setting each property of \<open>sp\<close>, in order, on the properties \<open>ps\<close>.\<close>

definition put_all :: "(string \<times> val) list \<Rightarrow> (string \<times> val) list \<Rightarrow> (string \<times> val) list" where
  "put_all ps sp = foldl (\<lambda>ps kv. put (fst kv) (snd kv) ps) ps sp"

definition get_member :: "heap \<Rightarrow> val \<Rightarrow> seg \<Rightarrow> val option" where
  "get_member h base s =
     (case base of
        VUndefined \<Rightarrow> None
      | VNull \<Rightarrow> None
      | VRef a \<Rightarrow>
          (if a < length h then
             (case h ! a of
                ObjO kvs \<Rightarrow>
                  (case map_of kvs (seg_to_string s) of None \<Rightarrow> Some VUndefined | Some v \<Rightarrow> Some v)
              | ArrO vs \<Rightarrow>
                  (case s of
                     SNum i \<Rightarrow> if 0 \<le> i \<and> nat i < length vs then Some (vs ! nat i)
                               else Some VUndefined
                   | SStr k \<Rightarrow> Some VUndefined)
              | DateO d \<Rightarrow> Some VUndefined)
           else None)
      | _ \<Rightarrow> Some VUndefined)"

fun resolve :: "heap \<Rightarrow> val \<Rightarrow> seg list \<Rightarrow> val option" where
  "resolve h base [] = Some base"
| "resolve h base (s # p) =
     (case get_member h base s of None \<Rightarrow> None | Some v \<Rightarrow> resolve h v p)"

definition set_member :: "heap \<Rightarrow> val \<Rightarrow> seg \<Rightarrow> val \<Rightarrow> heap option" where
  "set_member h base s v =
     (case base of
        VRef a \<Rightarrow>
          (if a < length h then
             (case h ! a of
                ObjO kvs \<Rightarrow> Some (h[a := ObjO (put (seg_to_string s) v kvs)])
              | ArrO vs \<Rightarrow>
                  (case s of
                     SNum i \<Rightarrow>
                       if 0 \<le> i then
                         Some (h[a := ArrO (if nat i < length vs then vs[nat i := v]
                                            else vs @ replicate (nat i - length vs) VUndefined @ [v])])
                       else None
                   | SStr k \<Rightarrow> None)
              | DateO d \<Rightarrow> None)
           else None)
      | _ \<Rightarrow> None)"

text \<open>
  \<open>delete_member\<close> is \<^verbatim>\<open>delete base[s]\<close>: the property leaves a plain object, the
  element of an array becomes a hole (read as \<^verbatim>\<open>undefined\<close>); a \<^verbatim>\<open>TypeError\<close> on
  \<^verbatim>\<open>undefined\<close> and \<^verbatim>\<open>null\<close>, nothing to delete elsewhere.
\<close>

definition delete_member :: "heap \<Rightarrow> val \<Rightarrow> seg \<Rightarrow> heap option" where
  "delete_member h base s =
     (case base of
        VUndefined \<Rightarrow> None
      | VNull \<Rightarrow> None
      | VRef a \<Rightarrow>
          (if a < length h then
             (case h ! a of
                ObjO kvs \<Rightarrow> Some (h[a := ObjO (filter (\<lambda>kv. fst kv \<noteq> seg_to_string s) kvs)])
              | ArrO vs \<Rightarrow>
                  (case s of
                     SNum i \<Rightarrow>
                       if 0 \<le> i \<and> nat i < length vs then Some (h[a := ArrO (vs[nat i := VUndefined])])
                       else Some h
                   | SStr k \<Rightarrow> Some h)
              | DateO d \<Rightarrow> Some h)
           else None)
      | _ \<Rightarrow> Some h)"

text \<open>
  \<^verbatim>\<open>root.p1. ... .pn = lit\<close> for a non-empty path: the literal is evaluated (its objects
  are new), the path is followed down to the last segment, and the member is written.
\<close>

definition write_path :: "heap \<Rightarrow> val \<Rightarrow> seg list \<Rightarrow> jsval \<Rightarrow> heap option" where
  "write_path h root p lit =
     (if p = [] then None
      else case alloc lit h of
        (v, h1) \<Rightarrow>
          (case resolve h1 root (butlast p) of
             None \<Rightarrow> None
           | Some base \<Rightarrow> set_member h1 base (last p) v))"

text \<open>
  \<^verbatim>\<open>root.p1. ... .pn = root.q1. ... .qm\<close>: the member receives a value that is already in
  the data, the same reference when it is an object. And \<^verbatim>\<open>delete root.p1. ... .pn\<close>.
\<close>

definition copy_path :: "heap \<Rightarrow> val \<Rightarrow> seg list \<Rightarrow> seg list \<Rightarrow> heap option" where
  "copy_path h root p q =
     (if p = [] then None
      else case resolve h root q of
        None \<Rightarrow> None
      | Some v \<Rightarrow>
          (case resolve h root (butlast p) of
             None \<Rightarrow> None
           | Some base \<Rightarrow> set_member h base (last p) v))"

definition delete_path :: "heap \<Rightarrow> val \<Rightarrow> seg list \<Rightarrow> heap option" where
  "delete_path h root p =
     (if p = [] then None
      else case resolve h root (butlast p) of
        None \<Rightarrow> None
      | Some base \<Rightarrow> delete_member h base (last p))"

text \<open>
  The mutations of the data below a root: writing a newly built value, linking a value of
  the data at another place, removing a member. A mutation that throws changes nothing
  (\<open>None\<close>).
\<close>

datatype mutation = Write "seg list" jsval | Link "seg list" "seg list" | Remove "seg list"

fun mutate :: "heap \<Rightarrow> val \<Rightarrow> mutation \<Rightarrow> heap option" where
  "mutate h root (Write p lit) = write_path h root p lit"
| "mutate h root (Link p q) = copy_path h root p q"
| "mutate h root (Remove p) = delete_path h root p"

text \<open>
  A mutation of the data of \<^verbatim>\<open>useForm\<close>. With the empty path the cell itself is
  assigned: \<^verbatim>\<open>data.value = lit\<close>, \<^verbatim>\<open>data.value = data.value.q1. ... .qm\<close>.
\<close>

fun assign :: "mutation \<Rightarrow> form \<Rightarrow> form" where
  "assign (Write p lit) st =
     (if p = [] then (case alloc lit (heap st) of (v, h1) \<Rightarrow> st\<lparr>heap := h1, data := v\<rparr>)
      else case write_path (heap st) (data st) p lit of
             None \<Rightarrow> st
           | Some h2 \<Rightarrow> st\<lparr>heap := h2\<rparr>)"
| "assign (Link p q) st =
     (if p = [] then (case resolve (heap st) (data st) q of None \<Rightarrow> st | Some v \<Rightarrow> st\<lparr>data := v\<rparr>)
      else case copy_path (heap st) (data st) p q of
             None \<Rightarrow> st
           | Some h2 \<Rightarrow> st\<lparr>heap := h2\<rparr>)"
| "assign (Remove p) st =
     (case delete_path (heap st) (data st) p of
        None \<Rightarrow> st
      | Some h2 \<Rightarrow> st\<lparr>heap := h2\<rparr>)"

text \<open>What can be done to a controller of \<^verbatim>\<open>useForm\<close>, and a sequence of it.\<close>

datatype op = Assign mutation | Submit | Reset | ToggleDisplayErrors

fun step :: "'o schema \<Rightarrow> ('o \<Rightarrow> 'x + 'r) \<Rightarrow> op \<Rightarrow> form \<Rightarrow> form" where
  "step sch onSubmit (Assign m) st = assign m st"
| "step sch onSubmit Submit st = after (submit sch onSubmit st)"
| "step sch onSubmit Reset st = snd (reset st)"
| "step sch onSubmit ToggleDisplayErrors st = toggleDisplayErrors st"

fun run :: "'o schema \<Rightarrow> ('o \<Rightarrow> 'x + 'r) \<Rightarrow> op list \<Rightarrow> form \<Rightarrow> form" where
  "run sch onSubmit [] st = st"
| "run sch onSubmit (x # xs) st = run sch onSubmit xs (step sch onSubmit x st)"

section \<open>The controller of \<^verbatim>\<open>useFormComponent\<close>\<close>

text \<open>
  Where an operation of \<^verbatim>\<open>useFormComponent\<close> has the name of one of \<^verbatim>\<open>useForm\<close>, it
  is written here with the prefix \<open>fc_\<close>.
\<close>

datatype status = Parsing | Valid | Invalid

text \<open>
  \<^verbatim>\<open>options?: { displayErrors?: Ref<boolean>, mutateDisplayErrorsOnError?: boolean }\<close>: an
  absent field is \<open>None\<close>; a supplied \<^verbatim>\<open>displayErrors\<close> cell is given by its value.
\<close>

record options =
  opt_displayErrors :: "bool option"
  mutateDisplayErrorsOnError :: "bool option"

text \<open>
  \<open>pending\<close> holds the validations that were started and have not resolved yet, each as the
  result it will resolve with; \<open>mounted\<close> says whether the \<^verbatim>\<open>onMounted\<close> hook has installed
  the watcher; \<open>queued\<close> says whether the watcher's callback is waiting in the scheduler's
  queue for the next flush.
\<close>

record 'o component = controller +
  input :: val
  initialInput :: val
  opts :: "options option"
  status :: status
  parseResultRef :: "'o SafeParseReturnType option"
  pending :: "'o SafeParseReturnType list"
  mounted :: bool
  queued :: bool

definition useFormComponent :: "heap \<Rightarrow> val \<Rightarrow> options option \<Rightarrow> js_error + 'o component" where
  "useFormComponent h inp options =
     (case JSON_stringify h inp of
        Inl e \<Rightarrow> Inl e
      | Inr text \<Rightarrow>
          (case JSON_parse text h of
             Inl e \<Rightarrow> Inl e
           | Inr (snap, h') \<Rightarrow>
               Inr \<lparr>heap = h',
                    displayErrors =
                      (case options of
                         None \<Rightarrow> False
                       | Some os \<Rightarrow> (case opt_displayErrors os of None \<Rightarrow> False | Some b \<Rightarrow> b)),
                    changedAt = None,
                    input = inp, initialInput = snap, opts = options,
                    status = Parsing, parseResultRef = None, pending = [], mounted = False,
                    queued = False\<rparr>))"

text \<open>
  The watcher's callback runs to its \<^verbatim>\<open>await\<close> (\<open>watcher_start\<close>) and goes on when the
  awaited validation resolves (\<open>watcher_resume\<close>, for the pending validation number \<open>i\<close>).
  Nothing cancels a validation that a later one has superseded.
\<close>

definition watcher_start :: "'o schema \<Rightarrow> 'o component \<Rightarrow> 'o component" where
  "watcher_start sch st =
     st\<lparr>status := Parsing,
        pending := pending st @ [safeParseAsync sch (heap st) (input st)]\<rparr>"

definition watcher_resume :: "nat \<Rightarrow> 'o component \<Rightarrow> 'o component" where
  "watcher_resume i st =
     (if i < length (pending st) then
        st\<lparr>parseResultRef := Some (pending st ! i),
           status := (if success (pending st ! i) then Valid else Invalid),
           pending := take i (pending st) @ drop (Suc i) (pending st)\<rparr>
      else st)"

text \<open>
  \<^verbatim>\<open>onMounted\<close>: \<^verbatim>\<open>watch(input, ..., { deep: true, immediate: true })\<close>. With
  \<^verbatim>\<open>immediate\<close> the callback runs once when the watcher is installed.
\<close>

definition on_mounted :: "'o schema \<Rightarrow> 'o component \<Rightarrow> 'o component" where
  "on_mounted sch st = (if mounted st then st else watcher_start sch (st\<lparr>mounted := True\<rparr>))"

text \<open>
  The watcher is given no \<^verbatim>\<open>flush\<close> option. Once it is installed, a write through the
  reactive \<^verbatim>\<open>input\<close> that has changed something does not run the callback: it puts the
  callback in the scheduler's queue, where it is at most once (\<open>trigger\<close>). The callback
  runs when the queue is flushed (\<open>flush\<close>), once for all the writes made since the last
  flush, on the data as it is then.
\<close>

definition trigger :: "'o component \<Rightarrow> 'o component \<Rightarrow> 'o component" where
  "trigger old new =
     (if mounted new \<and> heap new \<noteq> heap old then new\<lparr>queued := True\<rparr> else new)"

definition flush :: "'o schema \<Rightarrow> 'o component \<Rightarrow> 'o component" where
  "flush sch st = (if queued st then watcher_start sch (st\<lparr>queued := False\<rparr>) else st)"

definition fc_getErrors :: "'o component \<Rightarrow> seg list \<Rightarrow> issue list" where
  "fc_getErrors st qpath =
     (case parseResultRef st of
        None \<Rightarrow> []
      | Some (Success d) \<Rightarrow> []
      | Some (Failure errors) \<Rightarrow>
          filter (\<lambda>error. join (path error) ''.'' = join qpath ''.'') errors)"

definition mutate_on_error :: "options option \<Rightarrow> bool" where
  "mutate_on_error options =
     (case options of
        None \<Rightarrow> False
      | Some os \<Rightarrow> (case mutateDisplayErrorsOnError os of None \<Rightarrow> False | Some b \<Rightarrow> b))"

definition fc_submit ::
  "'o schema \<Rightarrow> ('o \<Rightarrow> 'x + 'r) \<Rightarrow> 'o component \<Rightarrow> ('x exn + 'r, 'o, 'o component) effect" where
  "fc_submit sch onSubmit st =
     (case safeParse sch (heap st) (input st) of
        Failure errors \<Rightarrow>
          \<lparr>completion = Inl (ZodError errors), onSubmit_calls = [],
           after = (if mutate_on_error (opts st) then st\<lparr>displayErrors := True\<rparr> else st)\<rparr>
      | Success d \<Rightarrow>
          \<lparr>completion = (case onSubmit d of Inl x \<Rightarrow> Inl (Raised x) | Inr r \<Rightarrow> Inr r),
           onSubmit_calls = [d], after = st\<rparr>)"

text \<open>
  \<^verbatim>\<open>Object.assign(target, source)\<close> sets on the target, in order, each own enumerable
  property of the source. A \<^verbatim>\<open>Date\<close> and a primitive that is not a string have none.
  The cases left alone in the last lines (an array receiving named properties, a \<^verbatim>\<open>Date\<close>
  receiving any, a string source) are those where the target would need properties that
  the objects of this heap do not have.
\<close>

definition Object_assign :: "heap \<Rightarrow> val \<Rightarrow> val \<Rightarrow> heap" where
  "Object_assign h target source =
     (case (target, source) of
        (VRef t, VRef s) \<Rightarrow>
          (if t < length h \<and> s < length h then
             (case (h ! t, h ! s) of
                (ObjO tps, ObjO sps) \<Rightarrow>
                  h[t := ObjO (put_all tps sps)]
              | (ObjO tps, ArrO svs) \<Rightarrow>
                  h[t := ObjO (put_all tps (zip (map digits [0..<length svs]) svs))]
              | (ArrO tvs, ArrO svs) \<Rightarrow> h[t := ArrO (svs @ drop (length svs) tvs)]
              | _ \<Rightarrow> h)
           else h)
      | _ \<Rightarrow> h)"

definition fc_reset :: "'o component \<Rightarrow> 'o component" where
  "fc_reset st =
     st\<lparr>changedAt := None, displayErrors := False,
        heap := Object_assign (heap st) (input st) (initialInput st)\<rparr>"

text \<open>What happens to a controller of \<^verbatim>\<open>useFormComponent\<close>, and a sequence of it.\<close>

datatype ev = Mounted | Mutate mutation | Flush | Resolved nat | SubmitE | ResetE | ToggleE

fun fc_step :: "'o schema \<Rightarrow> ('o \<Rightarrow> 'x + 'r) \<Rightarrow> ev \<Rightarrow> 'o component \<Rightarrow> 'o component" where
  "fc_step sch onSubmit Mounted st = on_mounted sch st"
| "fc_step sch onSubmit (Mutate m) st =
     (case mutate (heap st) (input st) m of
        None \<Rightarrow> st
      | Some h' \<Rightarrow> trigger st (st\<lparr>heap := h'\<rparr>))"
| "fc_step sch onSubmit Flush st = flush sch st"
| "fc_step sch onSubmit (Resolved i) st = watcher_resume i st"
| "fc_step sch onSubmit SubmitE st = after (fc_submit sch onSubmit st)"
| "fc_step sch onSubmit ResetE st = trigger st (fc_reset st)"
| "fc_step sch onSubmit ToggleE st = toggleDisplayErrors st"

fun fc_run :: "'o schema \<Rightarrow> ('o \<Rightarrow> 'x + 'r) \<Rightarrow> ev list \<Rightarrow> 'o component \<Rightarrow> 'o component" where
  "fc_run sch onSubmit [] st = st"
| "fc_run sch onSubmit (e # es) st = fc_run sch onSubmit es (fc_step sch onSubmit e st)"

section \<open>Regions of the heap\<close>

text \<open>
  The references a value and an object hold. A set of addresses is closed in a heap when
  its objects refer to nothing outside it. \<open>extends h h'\<close> says that \<open>h'\<close> is \<open>h\<close> with
  more objects after it, and that these new objects refer to new objects only: nothing
  built after \<open>h\<close> leads back into \<open>h\<close>.
\<close>

fun val_refs :: "val \<Rightarrow> addr set" where
  "val_refs (VRef a) = {a}"
| "val_refs v = {}"

fun obj_refs :: "obj \<Rightarrow> addr set" where
  "obj_refs (ObjO kvs) = (\<Union>kv \<in> set kvs. val_refs (snd kv))"
| "obj_refs (ArrO vs) = (\<Union>v \<in> set vs. val_refs v)"
| "obj_refs (DateO s) = {}"

definition closed_on :: "addr set \<Rightarrow> heap \<Rightarrow> bool" where
  "closed_on R h = (\<forall>a \<in> R. a < length h \<and> obj_refs (h ! a) \<subseteq> R)"

definition extends :: "heap \<Rightarrow> heap \<Rightarrow> bool" where
  "extends h h' = ((\<exists>e. h' = h @ e) \<and> closed_on {length h..<length h'} h')"

text \<open>
  What building a tree \<open>t\<close> in \<open>h\<close> gives: a value \<open>v\<close> of new objects only, in a heap
  \<open>h'\<close> that extends \<open>h\<close>, which reads back as \<open>t\<close>.
\<close>

definition alloc_ok :: "heap \<Rightarrow> heap \<Rightarrow> val \<Rightarrow> jsval \<Rightarrow> bool" where
  "alloc_ok h h' v t =
     (extends h h' \<and> val_refs v \<subseteq> {length h..<length h'}
      \<and> (\<forall>stack. set stack \<inter> {length h..<length h'} = {} \<longrightarrow> snapshot h' stack v = Inr t))"

text \<open>
  The invariant of a controller of \<^verbatim>\<open>useForm\<close> built in the heap \<open>h0\<close>: the heap has
  grown from \<open>h0\<close>, and \<^verbatim>\<open>data.value\<close> lies in the part that was added.
\<close>

definition owns :: "heap \<Rightarrow> form \<Rightarrow> bool" where
  "owns h0 st =
     (extends h0 (heap st) \<and> val_refs (data st) \<subseteq> {length h0..<length (heap st)})"

text \<open>
  An address is unreferenced when no object of the heap holds a reference to it. A heap is
  downward from \<open>n\<close> when each object from \<open>n\<close> on refers only to objects between \<open>n\<close> and
  itself, as the objects built for a tree do: the parts come before the whole.
\<close>

definition unreferenced :: "addr \<Rightarrow> heap \<Rightarrow> bool" where
  "unreferenced s h = (\<forall>a < length h. s \<notin> obj_refs (h ! a))"

definition downward :: "nat \<Rightarrow> heap \<Rightarrow> bool" where
  "downward n h = (\<forall>a. n \<le> a \<and> a < length h \<longrightarrow> obj_refs (h ! a) \<subseteq> {n..<a})"

section \<open>The state machine of \<^verbatim>\<open>status\<close>\<close>

text \<open>
  The transitions that the specification gives to \<^verbatim>\<open>status\<close>: from parsing to valid or
  invalid, and from valid or invalid to parsing. \<open>follows_spec\<close> says that along a sequence
  of events every change of \<^verbatim>\<open>status\<close> is one of them; \<open>quiet\<close> says that along it no
  validation is started while another is in flight.
\<close>

fun spec_transition :: "status \<Rightarrow> status \<Rightarrow> bool" where
  "spec_transition Parsing Valid = True"
| "spec_transition Parsing Invalid = True"
| "spec_transition Valid Parsing = True"
| "spec_transition Invalid Parsing = True"
| "spec_transition s s' = False"

fun quiet :: "'o schema \<Rightarrow> ('o \<Rightarrow> 'x + 'r) \<Rightarrow> ev list \<Rightarrow> 'o component \<Rightarrow> bool" where
  "quiet sch cb [] st = (length (pending st) \<le> 1)"
| "quiet sch cb (e # es) st = (length (pending st) \<le> 1 \<and> quiet sch cb es (fc_step sch cb e st))"

fun follows_spec :: "'o schema \<Rightarrow> ('o \<Rightarrow> 'x + 'r) \<Rightarrow> ev list \<Rightarrow> 'o component \<Rightarrow> bool" where
  "follows_spec sch cb [] st = True"
| "follows_spec sch cb (e # es) st =
     ((status (fc_step sch cb e st) = status st
        \<or> spec_transition (status st) (status (fc_step sch cb e st)))
      \<and> follows_spec sch cb es (fc_step sch cb e st))"

section \<open>An example form\<close>

text \<open>
  The form of the README: \<^verbatim>\<open>z.object({ name: z.string().min(1, 'Name is required'),
  email: z.string().email('Email is invalid') })\<close> over the data \<^verbatim>\<open>{ name: '', email: '' }\<close>.
  The address of an e-mail is taken to be valid when it holds an \<^verbatim>\<open>@\<close>, and the output is
  the data as it was read.
\<close>

definition name_issues :: "heap \<Rightarrow> val \<Rightarrow> issue list" where
  "name_issues h v =
     (case get_member h v (SStr ''name'') of
        Some (VStr s) \<Rightarrow>
          if s = [] then [\<lparr>path = [SStr ''name''], message = ''Name is required''\<rparr>] else []
      | _ \<Rightarrow> [\<lparr>path = [SStr ''name''], message = ''Required''\<rparr>])"

definition email_issues :: "heap \<Rightarrow> val \<Rightarrow> issue list" where
  "email_issues h v =
     (case get_member h v (SStr ''email'') of
        Some (VStr s) \<Rightarrow>
          if CHR ''@'' \<in> set s then [] else [\<lparr>path = [SStr ''email''], message = ''Email is invalid''\<rparr>]
      | _ \<Rightarrow> [\<lparr>path = [SStr ''email''], message = ''Required''\<rparr>])"

definition check_fields :: "heap \<Rightarrow> val \<Rightarrow> jsval SafeParseReturnType" where
  "check_fields h v =
     (if name_issues h v @ email_issues h v = []
      then Success (case snapshot h [] v of Inr t \<Rightarrow> t | Inl e \<Rightarrow> JNull)
      else Failure (name_issues h v @ email_issues h v))"

definition fields_schema :: "jsval schema" where
  "fields_schema = \<lparr>safeParse = check_fields, safeParseAsync = check_fields\<rparr>"

definition blank_heap :: heap where
  "blank_heap = [ObjO [(''name'', VStr []), (''email'', VStr [])]]"

definition blank_form :: form where
  "blank_form =
     \<lparr>heap = [ObjO [(''name'', VStr []), (''email'', VStr [])],
              ObjO [(''name'', VStr []), (''email'', VStr [])]],
      displayErrors = False, changedAt = None, initialData = VRef 0, data = VRef 1\<rparr>"

definition blank_component :: "options option \<Rightarrow> jsval component" where
  "blank_component options =
     \<lparr>heap = [ObjO [(''name'', VStr []), (''email'', VStr [])],
              ObjO [(''name'', VStr []), (''email'', VStr [])]],
      displayErrors =
        (case options of
           None \<Rightarrow> False
         | Some os \<Rightarrow> (case opt_displayErrors os of None \<Rightarrow> False | Some b \<Rightarrow> b)),
      changedAt = None, input = VRef 0, initialInput = VRef 1,
      opts = options, status = Parsing, parseResultRef = None, pending = [], mounted = False,
      queued = False\<rparr>"

definition show_on_error :: "options option" where
  "show_on_error = Some \<lparr>opt_displayErrors = None, mutateDisplayErrorsOnError = Some True\<rparr>"

definition log_only :: "jsval \<Rightarrow> unit + unit" where
  "log_only d = Inr ()"

definition filling :: "mutation list" where
  "filling = [Write [SStr ''name''] (JStr ''Bob''), Write [SStr ''email''] (JStr ''bob@example.com'')]"

definition fill_in :: "ev list" where
  "fill_in = [Mutate (Write [SStr ''name''] (JStr ''Bob'')), Mutate (Write [SStr ''email''] (JStr ''bob@example.com''))]"

definition filled_heap :: heap where
  "filled_heap =
     [ObjO [(''name'', VStr ''Bob''), (''email'', VStr ''bob@example.com'')],
      ObjO [(''name'', VStr []), (''email'', VStr [])]]"

definition fill_ops :: "op list" where
  "fill_ops = [Assign (Write [SStr ''name''] (JStr ''Bob'')), Assign (Write [SStr ''email''] (JStr ''bob@example.com''))]"

definition filled_form :: form where
  "filled_form =
     \<lparr>heap = [ObjO [(''name'', VStr []), (''email'', VStr [])],
              ObjO [(''name'', VStr ''Bob''), (''email'', VStr ''bob@example.com'')]],
      displayErrors = False, changedAt = None, initialData = VRef 0, data = VRef 1\<rparr>"

definition dotted_schema :: "jsval schema" where
  "dotted_schema =
     \<lparr>safeParse = (\<lambda>h v. Failure [\<lparr>path = [SStr ''a'', SStr ''b''], message = ''nested''\<rparr>,
                                    \<lparr>path = [SStr ''a.b''], message = ''dotted''\<rparr>,
                                    \<lparr>path = [SStr ''a''], message = ''outer''\<rparr>]),
      safeParseAsync = (\<lambda>h v. Failure [\<lparr>path = [SStr ''a'', SStr ''b''], message = ''nested''\<rparr>,
                                         \<lparr>path = [SStr ''a.b''], message = ''dotted''\<rparr>,
                                         \<lparr>path = [SStr ''a''], message = ''outer''\<rparr>])\<rparr>"

text \<open>An initial value that holds a \<^verbatim>\<open>Date\<close>: \<^verbatim>\<open>{ when: new Date(...) }\<close>.\<close>

definition date_heap :: heap where
  "date_heap = [DateO ''2024-01-01T00:00:00.000Z'', ObjO [(''when'', VRef 0)]]"

definition date_form :: form where
  "date_form =
     \<lparr>heap = [DateO ''2024-01-01T00:00:00.000Z'', ObjO [(''when'', VRef 0)],
              ObjO [(''when'', VStr ''2024-01-01T00:00:00.000Z'')]],
      displayErrors = False, changedAt = None, initialData = VRef 1, data = VRef 2\<rparr>"

text \<open>A key that the initial data does not have is added, then a field is filled in.\<close>

definition add_nickname :: "ev list" where
  "add_nickname = [Mutate (Write [SStr ''nickname''] (JStr ''bobby'')), Mutate (Write [SStr ''name''] (JStr ''Bob''))]"

text \<open>
  A form whose data is valid from the start, the event that empties its name, and a
  sequence of events on the blank form in which each validation resolves before the next
  one starts: the two fields are filled in before one flush, so that one validation is
  started for both.
\<close>

definition bob_heap :: heap where
  "bob_heap = [ObjO [(''name'', VStr ''Bob''), (''email'', VStr ''bob@example.com'')]]"

definition bob_component :: "jsval component" where
  "bob_component =
     \<lparr>heap = [ObjO [(''name'', VStr ''Bob''), (''email'', VStr ''bob@example.com'')],
              ObjO [(''name'', VStr ''Bob''), (''email'', VStr ''bob@example.com'')]],
      displayErrors = False, changedAt = None, input = VRef 0, initialInput = VRef 1,
      opts = None, status = Parsing, parseResultRef = None, pending = [], mounted = False,
      queued = False\<rparr>"

definition erase_name :: ev where
  "erase_name = Mutate (Write [SStr ''name''] (JStr []))"

definition careful_run :: "ev list" where
  "careful_run =
     [Mounted, Resolved 0, Mutate (Write [SStr ''name''] (JStr ''Bob'')),
      Mutate (Write [SStr ''email''] (JStr ''bob@example.com'')), Flush, Resolved 0]"

section \<open>Lemmas: reading and building values\<close>

lemma collect_map_Inr: "collect (map Inr xs) = Inr xs"
  by (induction xs) simp_all

lemma snapshot_region:
  "closed_on R h \<Longrightarrow> \<forall>a \<in> R. a < length h2 \<and> h2 ! a = h ! a \<Longrightarrow> val_refs v \<subseteq> R
     \<Longrightarrow> snapshot h2 stack v = snapshot h stack v"
proof (induction h stack v rule: snapshot.induct)
  case (6 h stack a)
  from "6.prems" have la: "a < length h" "a < length h2" "h2 ! a = h ! a" "obj_refs (h ! a) \<subseteq> R"
    by (auto simp: closed_on_def)
  show ?case
  proof (cases "a \<in> set stack")
    case True
    then show ?thesis by simp
  next
    case False
    show ?thesis
    proof (cases "h ! a")
      case (ObjO kvs)
      have eq: "map (\<lambda>kv. snapshot h2 (a # stack) (snd kv)) kvs
          = map (\<lambda>kv. snapshot h (a # stack) (snd kv)) kvs"
      proof (rule map_cong [OF refl])
        fix x assume x: "x \<in> set kvs"
        with la(4) ObjO have "val_refs (snd x) \<subseteq> R" by auto
        with x show "snapshot h2 (a # stack) (snd x) = snapshot h (a # stack) (snd x)"
          using "6.IH"(1) [OF _ ObjO x] "6.prems"(1,2) False la(1) by simp
      qed
      show ?thesis using False la ObjO by (simp add: eq)
    next
      case (ArrO vs)
      have eq: "map (snapshot h2 (a # stack)) vs = map (snapshot h (a # stack)) vs"
      proof (rule map_cong [OF refl])
        fix x assume x: "x \<in> set vs"
        with la(4) ArrO have "val_refs x \<subseteq> R" by auto
        with x show "snapshot h2 (a # stack) x = snapshot h (a # stack) x"
          using "6.IH"(2) [OF _ ArrO x] "6.prems"(1,2) False la(1) by simp
      qed
      show ?thesis using False la ArrO by (simp add: eq)
    next
      case (DateO s)
      then show ?thesis using False la by simp
    qed
  qed
qed simp_all

lemma extends_refl: "extends h h"
  by (simp add: extends_def closed_on_def)

lemma extends_length: "extends h h' \<Longrightarrow> length h \<le> length h'"
  by (auto simp: extends_def)

lemma extends_nth: "extends h h' \<Longrightarrow> a < length h \<Longrightarrow> h' ! a = h ! a"
  by (auto simp: extends_def nth_append)

lemma extends_trans:
  assumes "extends h h1" and "extends h1 h2"
  shows "extends h h2"
proof -
  from assms obtain e1 e2 where e: "h1 = h @ e1" "h2 = h1 @ e2"
    by (auto simp: extends_def)
  have c1: "closed_on {length h..<length h1} h1" and c2: "closed_on {length h1..<length h2} h2"
    using assms by (auto simp: extends_def)
  have "closed_on {length h..<length h2} h2"
    unfolding closed_on_def
  proof
    fix a assume a: "a \<in> {length h..<length h2}"
    show "a < length h2 \<and> obj_refs (h2 ! a) \<subseteq> {length h..<length h2}"
    proof (cases "a < length h1")
      case True
      then have "h2 ! a = h1 ! a" using e(2) by (simp add: nth_append)
      moreover have "obj_refs (h1 ! a) \<subseteq> {length h..<length h1}"
        using c1 a True by (simp add: closed_on_def)
      moreover have "length h1 \<le> length h2" using e by simp
      ultimately show ?thesis using a by auto
    next
      case False
      then have "obj_refs (h2 ! a) \<subseteq> {length h1..<length h2}"
        using c2 a by (simp add: closed_on_def)
      moreover have "length h \<le> length h1" using e by simp
      ultimately show ?thesis using a by auto
    qed
  qed
  then show ?thesis using e by (simp add: extends_def)
qed

lemma extends_snoc:
  assumes "extends h h'" and "obj_refs ob \<subseteq> {length h..<length h'}"
  shows "extends h (h' @ [ob])"
proof -
  from assms obtain e where e: "h' = h @ e" by (auto simp: extends_def)
  have c: "closed_on {length h..<length h'} h'" using assms by (simp add: extends_def)
  have "closed_on {length h..<length (h' @ [ob])} (h' @ [ob])"
    unfolding closed_on_def
  proof
    fix a assume a: "a \<in> {length h..<length (h' @ [ob])}"
    show "a < length (h' @ [ob]) \<and> obj_refs ((h' @ [ob]) ! a) \<subseteq> {length h..<length (h' @ [ob])}"
    proof (cases "a < length h'")
      case True
      then have "obj_refs (h' ! a) \<subseteq> {length h..<length h'}"
        using c a by (simp add: closed_on_def)
      then show ?thesis using True a by (auto simp: nth_append)
    next
      case False
      with a have "a = length h'" by simp
      then show ?thesis using assms(2) by auto
    qed
  qed
  then show ?thesis using e by (simp add: extends_def)
qed

lemma extends_prefix: "extends h h' \<Longrightarrow> prefix h h'"
  by (auto simp: extends_def prefix_def)

lemma snapshot_extends:
  assumes "extends h h1" and "prefix h1 h2" and "val_refs v \<subseteq> {length h..<length h1}"
  shows "snapshot h2 stack v = snapshot h1 stack v"
proof (rule snapshot_region [where R = "{length h..<length h1}"])
  show "closed_on {length h..<length h1} h1" using assms(1) by (simp add: extends_def)
  show "\<forall>a\<in>{length h..<length h1}. a < length h2 \<and> h2 ! a = h1 ! a"
    using assms(2) by (auto simp: prefix_def nth_append)
  show "val_refs v \<subseteq> {length h..<length h1}" by fact
qed

lemma alloc_ok_mono:
  assumes "alloc_ok h h1 v t" and "prefix h1 h2" and "extends h h2"
  shows "alloc_ok h h2 v t"
proof -
  have len: "length h1 \<le> length h2" using assms(2) by (auto simp: prefix_def)
  have refs: "val_refs v \<subseteq> {length h..<length h1}" using assms(1) by (simp add: alloc_ok_def)
  have ext: "extends h h1" using assms(1) by (simp add: alloc_ok_def)
  have "snapshot h2 stack v = Inr t" if "set stack \<inter> {length h..<length h2} = {}" for stack
  proof -
    from that len have "set stack \<inter> {length h..<length h1} = {}" by auto
    then have "snapshot h1 stack v = Inr t" using assms(1) by (simp add: alloc_ok_def)
    then show ?thesis using snapshot_extends [OF ext assms(2) refs] by simp
  qed
  then show ?thesis using refs len assms(3) by (auto simp: alloc_ok_def)
qed

lemma alloc_ok_shift:
  assumes "alloc_ok h1 h2 v t" and "extends h h1"
  shows "alloc_ok h h2 v t"
proof -
  have len: "length h \<le> length h1" using assms(2) by (rule extends_length)
  have "extends h h2" using assms by (auto simp: alloc_ok_def intro: extends_trans)
  moreover have "val_refs v \<subseteq> {length h..<length h2}"
    using assms(1) len by (auto simp: alloc_ok_def)
  moreover have "snapshot h2 stack v = Inr t" if "set stack \<inter> {length h..<length h2} = {}" for stack
  proof -
    from that len have "set stack \<inter> {length h1..<length h2} = {}" by auto
    then show ?thesis using assms(1) by (simp add: alloc_ok_def)
  qed
  ultimately show ?thesis by (simp add: alloc_ok_def)
qed

lemma alloc_ok_prim:
  "val_refs v = {} \<Longrightarrow> (\<And>stack. snapshot h stack v = Inr t) \<Longrightarrow> alloc_ok h h v t"
  by (simp add: alloc_ok_def extends_refl)

lemma alloc_ok_refs:
  "list_all2 (alloc_ok h h') vs xs \<Longrightarrow> x \<in> set vs \<Longrightarrow> val_refs x \<subseteq> {length h..<length h'}"
  by (induction rule: list_all2_induct) (auto simp: alloc_ok_def)

lemma alloc_ok_refs_props:
  "list_all2 (\<lambda>p kv. fst p = fst kv \<and> alloc_ok h h' (snd p) (snd kv)) ps kvs \<Longrightarrow> x \<in> set ps
     \<Longrightarrow> val_refs (snd x) \<subseteq> {length h..<length h'}"
  by (induction rule: list_all2_induct) (auto simp: alloc_ok_def)

lemma alloc_ok_keys:
  "list_all2 (\<lambda>p kv. fst p = fst kv \<and> alloc_ok h h' (snd p) (snd kv)) ps kvs \<Longrightarrow> map fst ps = map fst kvs"
  by (induction rule: list_all2_induct) auto

lemma alloc_ok_all:
  "(\<forall>v h'. alloc t h = (v, h') \<longrightarrow> alloc_ok h h' v t)"
  "(\<forall>vs h'. alloc_list ts h = (vs, h') \<longrightarrow>
      extends h h' \<and> list_all2 (alloc_ok h h') vs ts)"
  "(\<forall>ps h'. alloc_props kvs h = (ps, h') \<longrightarrow>
      extends h h' \<and> list_all2 (\<lambda>p kv. fst p = fst kv \<and> alloc_ok h h' (snd p) (snd kv)) ps kvs)"
proof (induction t h and ts h and kvs h rule: alloc_alloc_list_alloc_props.induct)
  case (6 s h)
  have "extends h (h @ [DateO s])" using extends_snoc [OF extends_refl, of "DateO s" h] by simp
  then show ?case by (auto simp: alloc_ok_def)
next
  case (7 xs h)
  show ?case
  proof (intro allI impI)
    fix v h'' assume al: "alloc (JArr xs) h = (v, h'')"
    obtain vs h' where l: "alloc_list xs h = (vs, h')" by (cases "alloc_list xs h")
    with al have v: "v = VRef (length h')" and h'': "h'' = h' @ [ArrO vs]" by simp_all
    from 7 l have ext: "extends h h'" and all: "list_all2 (alloc_ok h h') vs xs" by simp_all
    have len: "length h \<le> length h'" using ext by (rule extends_length)
    have refs: "\<forall>x \<in> set vs. val_refs x \<subseteq> {length h..<length h'}"
      using alloc_ok_refs [OF all] by blast
    then have ext'': "extends h h''"
      unfolding h'' by (intro extends_snoc [OF ext]) auto
    have pre: "prefix h' h''" by (simp add: h'')
    have "snapshot h'' stack v = Inr (JArr xs)" if st: "set stack \<inter> {length h..<length h''} = {}" for stack
    proof -
      have notin: "length h' \<notin> set stack" using st len by (auto simp: h'')
      have st': "set (length h' # stack) \<inter> {length h..<length h'} = {}" using st by (auto simp: h'')
      have eq: "map (snapshot h'' (length h' # stack)) vs = map Inr xs"
      proof (rule nth_equalityI)
        show "length (map (snapshot h'' (length h' # stack)) vs) = length (map Inr xs)"
          using all by (simp add: list_all2_lengthD)
      next
        fix i assume "i < length (map (snapshot h'' (length h' # stack)) vs)"
        then have i: "i < length vs" by simp
        then have ok: "alloc_ok h h' (vs ! i) (xs ! i)" using all by (simp add: list_all2_conv_all_nth)
        then have "snapshot h'' (length h' # stack) (vs ! i) = snapshot h' (length h' # stack) (vs ! i)"
          using snapshot_extends [OF ext pre] by (simp add: alloc_ok_def)
        also have "\<dots> = Inr (xs ! i)" using ok st' by (simp add: alloc_ok_def)
        finally show "map (snapshot h'' (length h' # stack)) vs ! i = map Inr xs ! i"
          using i all by (simp add: list_all2_lengthD)
      qed
      have "collect (map (snapshot h'' (length h' # stack)) vs) = Inr xs"
        unfolding eq by (rule collect_map_Inr)
      then show ?thesis using notin by (simp add: v h'')
    qed
    then show "alloc_ok h h'' v (JArr xs)" using ext'' len by (auto simp: alloc_ok_def v h'')
  qed
next
  case (8 kvs h)
  show ?case
  proof (intro allI impI)
    fix v h'' assume al: "alloc (JObj kvs) h = (v, h'')"
    obtain ps h' where l: "alloc_props kvs h = (ps, h')" by (cases "alloc_props kvs h")
    with al have v: "v = VRef (length h')" and h'': "h'' = h' @ [ObjO ps]" by simp_all
    from 8 l have ext: "extends h h'"
      and all: "list_all2 (\<lambda>p kv. fst p = fst kv \<and> alloc_ok h h' (snd p) (snd kv)) ps kvs" by simp_all
    have len: "length h \<le> length h'" using ext by (rule extends_length)
    have keys: "map fst ps = map fst kvs"
      using all by (rule alloc_ok_keys)
    have refs: "\<forall>x \<in> set ps. val_refs (snd x) \<subseteq> {length h..<length h'}"
      using alloc_ok_refs_props [OF all] by blast
    then have ext'': "extends h h''"
      unfolding h'' by (intro extends_snoc [OF ext]) auto
    have pre: "prefix h' h''" by (simp add: h'')
    have "snapshot h'' stack v = Inr (JObj kvs)" if st: "set stack \<inter> {length h..<length h''} = {}" for stack
    proof -
      have notin: "length h' \<notin> set stack" using st len by (auto simp: h'')
      have st': "set (length h' # stack) \<inter> {length h..<length h'} = {}" using st by (auto simp: h'')
      have eq: "map (\<lambda>kv. snapshot h'' (length h' # stack) (snd kv)) ps = map Inr (map snd kvs)"
      proof (rule nth_equalityI)
        show "length (map (\<lambda>kv. snapshot h'' (length h' # stack) (snd kv)) ps) = length (map Inr (map snd kvs))"
          using all by (simp add: list_all2_lengthD)
      next
        fix i assume "i < length (map (\<lambda>kv. snapshot h'' (length h' # stack) (snd kv)) ps)"
        then have i: "i < length ps" by simp
        then have ok: "alloc_ok h h' (snd (ps ! i)) (snd (kvs ! i))"
          using all by (simp add: list_all2_conv_all_nth)
        then have "snapshot h'' (length h' # stack) (snd (ps ! i))
                 = snapshot h' (length h' # stack) (snd (ps ! i))"
          using snapshot_extends [OF ext pre] by (simp add: alloc_ok_def)
        also have "\<dots> = Inr (snd (kvs ! i))" using ok st' by (simp add: alloc_ok_def)
        finally show "map (\<lambda>kv. snapshot h'' (length h' # stack) (snd kv)) ps ! i
                    = map Inr (map snd kvs) ! i"
          using i all by (simp add: list_all2_lengthD)
      qed
      have "collect (map (\<lambda>kv. snapshot h'' (length h' # stack) (snd kv)) ps) = Inr (map snd kvs)"
        unfolding eq by (rule collect_map_Inr)
      then show ?thesis using notin by (simp add: v h'' keys zip_map_fst_snd)
    qed
    then show "alloc_ok h h'' v (JObj kvs)" using ext'' len by (auto simp: alloc_ok_def v h'')
  qed
next
  case (10 x xs h)
  show ?case
  proof (intro allI impI)
    fix vs' h2 assume al: "alloc_list (x # xs) h = (vs', h2)"
    obtain v h1 where a1: "alloc x h = (v, h1)" by (cases "alloc x h")
    obtain vs where a2: "alloc_list xs h1 = (vs, h2)" and vs': "vs' = v # vs"
      using al a1 by (auto split: prod.splits)
    have ok1: "alloc_ok h h1 v x" using "10.IH"(1) a1 by simp
    have ext2: "extends h1 h2" and all2: "list_all2 (alloc_ok h1 h2) vs xs"
      using "10.IH"(2) [OF a1 [symmetric]] a2 by simp_all
    have ext1: "extends h h1" using ok1 by (simp add: alloc_ok_def)
    have ext: "extends h h2" using ext1 ext2 by (rule extends_trans)
    have "alloc_ok h h2 v x" using ok1 extends_prefix [OF ext2] ext by (rule alloc_ok_mono)
    moreover have "list_all2 (alloc_ok h h2) vs xs"
      using all2 by (rule list_all2_mono) (rule alloc_ok_shift [OF _ ext1])
    ultimately show "extends h h2 \<and> list_all2 (alloc_ok h h2) vs' (x # xs)"
      using ext by (simp add: vs')
  qed
next
  case (12 kv kvs h)
  show ?case
  proof (intro allI impI)
    fix ps' h2 assume al: "alloc_props (kv # kvs) h = (ps', h2)"
    obtain v h1 where a1: "alloc (snd kv) h = (v, h1)" by (cases "alloc (snd kv) h")
    obtain ps where a2: "alloc_props kvs h1 = (ps, h2)" and ps': "ps' = (fst kv, v) # ps"
      using al a1 by (auto split: prod.splits)
    have ok1: "alloc_ok h h1 v (snd kv)" using "12.IH"(1) a1 by simp
    have ext2: "extends h1 h2"
      and all2: "list_all2 (\<lambda>p kv. fst p = fst kv \<and> alloc_ok h1 h2 (snd p) (snd kv)) ps kvs"
      using "12.IH"(2) [OF a1 [symmetric]] a2 by simp_all
    have ext1: "extends h h1" using ok1 by (simp add: alloc_ok_def)
    have ext: "extends h h2" using ext1 ext2 by (rule extends_trans)
    have "alloc_ok h h2 v (snd kv)" using ok1 extends_prefix [OF ext2] ext by (rule alloc_ok_mono)
    moreover have "list_all2 (\<lambda>p kv. fst p = fst kv \<and> alloc_ok h h2 (snd p) (snd kv)) ps kvs"
      using all2 by (rule list_all2_mono) (auto intro: alloc_ok_shift [OF _ ext1])
    ultimately show "extends h h2
        \<and> list_all2 (\<lambda>p kv. fst p = fst kv \<and> alloc_ok h h2 (snd p) (snd kv)) ps' (kv # kvs)"
      using ext by (simp add: ps')
  qed
qed (simp_all add: alloc_ok_prim extends_refl)

lemma collect_Inr_D: "collect rs = Inr xs \<Longrightarrow> rs = map Inr xs"
  by (induction rs arbitrary: xs rule: collect.induct) (auto split: sum.splits)

lemma collect_Inr_iff: "collect rs = Inr xs \<longleftrightarrow> rs = map Inr xs"
  using collect_Inr_D collect_map_Inr by blast

lemma snapshot_prefix:
  "prefix h h2 \<Longrightarrow> snapshot h stack v = Inr t \<Longrightarrow> snapshot h2 stack v = Inr t"
proof (induction h stack v arbitrary: t rule: snapshot.induct)
  case (6 h stack a)
  from "6.prems"(2) have a: "a \<notin> set stack" "a < length h"
    by (auto split: if_splits)
  with "6.prems"(1) have a2: "a < length h2" "h2 ! a = h ! a"
    by (auto simp: prefix_def nth_append)
  show ?case
  proof (cases "h ! a")
    case (ObjO kvs)
    with "6.prems"(2) a obtain ts
      where ts: "collect (map (\<lambda>kv. snapshot h (a # stack) (snd kv)) kvs) = Inr ts"
      by (auto split: sum.splits)
    then have m: "map (\<lambda>kv. snapshot h (a # stack) (snd kv)) kvs = map Inr ts"
      by (simp add: collect_Inr_iff)
    have eq: "map (\<lambda>kv. snapshot h2 (a # stack) (snd kv)) kvs
            = map (\<lambda>kv. snapshot h (a # stack) (snd kv)) kvs"
    proof (rule map_cong [OF refl])
      fix x assume x: "x \<in> set kvs"
      then obtain i where i: "i < length kvs" "kvs ! i = x" by (auto simp: in_set_conv_nth)
      from m have "map (\<lambda>kv. snapshot h (a # stack) (snd kv)) kvs ! i = map Inr ts ! i" by simp
      moreover from m have "length ts = length kvs" by (metis length_map)
      ultimately have "snapshot h (a # stack) (snd x) = Inr (ts ! i)" using i by simp
      moreover from this have "snapshot h2 (a # stack) (snd x) = Inr (ts ! i)"
        using "6.IH"(1) [OF _ ObjO x "6.prems"(1)] a by simp
      ultimately show "snapshot h2 (a # stack) (snd x) = snapshot h (a # stack) (snd x)" by simp
    qed
    show ?thesis using "6.prems"(2) a a2 ObjO by (simp add: eq)
  next
    case (ArrO vs)
    with "6.prems"(2) a obtain ts
      where ts: "collect (map (snapshot h (a # stack)) vs) = Inr ts"
      by (auto split: sum.splits)
    then have m: "map (snapshot h (a # stack)) vs = map Inr ts"
      by (simp add: collect_Inr_iff)
    have eq: "map (snapshot h2 (a # stack)) vs = map (snapshot h (a # stack)) vs"
    proof (rule map_cong [OF refl])
      fix x assume x: "x \<in> set vs"
      then obtain i where i: "i < length vs" "vs ! i = x" by (auto simp: in_set_conv_nth)
      from m have "map (snapshot h (a # stack)) vs ! i = map Inr ts ! i" by simp
      moreover from m have "length ts = length vs" by (metis length_map)
      ultimately have "snapshot h (a # stack) x = Inr (ts ! i)" using i by simp
      moreover from this have "snapshot h2 (a # stack) x = Inr (ts ! i)"
        using "6.IH"(2) [OF _ ArrO x "6.prems"(1)] a by simp
      ultimately show "snapshot h2 (a # stack) x = snapshot h (a # stack) x" by simp
    qed
    show ?thesis using "6.prems"(2) a a2 ArrO by (simp add: eq)
  next
    case (DateO s)
    then show ?thesis using "6.prems"(2) a a2 by simp
  qed
qed simp_all

lemma deepClone_Inr:
  assumes "deepClone h v = Inr (d, h')"
  obtains t j where "snapshot h [] v = Inr t" and "json_of t = Some j" and "alloc j h = (d, h')"
  using assms
  by (auto simp: deepClone_def JSON_stringify_def JSON_parse_def split: sum.splits option.splits)

lemma deepClone_again:
  assumes "snapshot h0 [] v = Inr t" and "json_of t = Some j" and "prefix h0 h"
  shows "deepClone h v = Inr (alloc j h)"
  using snapshot_prefix [OF assms(3,1)] assms(2)
  by (simp add: deepClone_def JSON_stringify_def JSON_parse_def)

lemma alloc_snapshot:
  assumes "alloc j h = (d, h')"
  shows "snapshot h' [] d = Inr j" and "extends h h'" and "val_refs d \<subseteq> {length h..<length h'}"
  using alloc_ok_all(1) [of j h] assms by (simp_all add: alloc_ok_def)

section \<open>Lemmas: what the operations of \<^verbatim>\<open>useForm\<close> preserve\<close>

lemma put_refs:
  "(\<Union>kv \<in> set (put k v kvs). val_refs (snd kv)) \<subseteq> (\<Union>kv \<in> set kvs. val_refs (snd kv)) \<union> val_refs v"
  by (induction kvs) auto

lemma erase_refs: "obj_refs (ArrO (vs[i := VUndefined])) \<subseteq> obj_refs (ArrO vs)"
proof
  fix x
  assume "x \<in> obj_refs (ArrO (vs[i := VUndefined]))"
  then obtain v where v: "v \<in> set (vs[i := VUndefined])" and x: "x \<in> val_refs v" by auto
  from v have "v = VUndefined \<or> v \<in> set vs"
    using set_update_subset_insert [of vs i VUndefined] by auto
  with x show "x \<in> obj_refs (ArrO vs)" by auto
qed

lemma get_member_refs:
  assumes "closed_on R h" and "val_refs base \<subseteq> R" and "get_member h base s = Some v"
  shows "val_refs v \<subseteq> R"
proof (cases base)
  case (VRef a)
  with assms(1,2) have a: "a < length h" "obj_refs (h ! a) \<subseteq> R" by (auto simp: closed_on_def)
  show ?thesis
  proof (cases "h ! a")
    case (ObjO kvs)
    show ?thesis
    proof (cases "map_of kvs (seg_to_string s)")
      case None
      then show ?thesis using assms(3) VRef a ObjO by (simp add: get_member_def)
    next
      case (Some w)
      then have "v = w" using assms(3) VRef a ObjO by (simp add: get_member_def)
      moreover from Some have "(seg_to_string s, w) \<in> set kvs" by (rule map_of_SomeD)
      ultimately show ?thesis using a(2) ObjO by fastforce
    qed
  next
    case (ArrO vs)
    then have "\<forall>x \<in> set vs. val_refs x \<subseteq> R" using a(2) by auto
    then have "\<forall>i < length vs. val_refs (vs ! i) \<subseteq> R" by simp
    then show ?thesis using assms(3) VRef a ArrO
      by (cases s) (auto simp: get_member_def split: if_splits)
  next
    case (DateO d)
    then show ?thesis using assms(3) VRef a by (auto simp: get_member_def)
  qed
qed (use assms(3) in \<open>auto simp: get_member_def\<close>)

lemma resolve_refs:
  "closed_on R h \<Longrightarrow> val_refs base \<subseteq> R \<Longrightarrow> resolve h base p = Some v \<Longrightarrow> val_refs v \<subseteq> R"
proof (induction p arbitrary: base)
  case Nil
  then show ?case by simp
next
  case (Cons s p)
  then obtain w where w: "get_member h base s = Some w" "resolve h w p = Some v"
    by (auto split: option.splits)
  from get_member_refs [OF Cons.prems(1,2) w(1)] have "val_refs w \<subseteq> R" .
  then show ?case using Cons.IH [OF Cons.prems(1) _ w(2)] by simp
qed

lemma extends_update:
  assumes "extends h0 h1" and "length h0 \<le> a" and "a < length h1"
    and "obj_refs ob \<subseteq> {length h0..<length h1}"
  shows "extends h0 (h1[a := ob])"
proof -
  from assms(1) obtain e where e: "h1 = h0 @ e" by (auto simp: extends_def)
  have c: "closed_on {length h0..<length h1} h1" using assms(1) by (simp add: extends_def)
  have "h1[a := ob] = h0 @ e[a - length h0 := ob]"
    using assms(2) by (simp add: e list_update_append)
  moreover have "closed_on {length h0..<length (h1[a := ob])} (h1[a := ob])"
    unfolding closed_on_def
  proof
    fix b assume b: "b \<in> {length h0..<length (h1[a := ob])}"
    show "b < length (h1[a := ob]) \<and> obj_refs (h1[a := ob] ! b) \<subseteq> {length h0..<length (h1[a := ob])}"
    proof (cases "b = a")
      case True
      then show ?thesis using assms(3,4) by simp
    next
      case False
      then show ?thesis using c b by (simp add: closed_on_def)
    qed
  qed
  ultimately show ?thesis unfolding extends_def by blast
qed

lemma set_member_extends:
  assumes "extends h0 h1" and "val_refs base \<subseteq> {length h0..<length h1}"
    and "val_refs v \<subseteq> {length h0..<length h1}" and "set_member h1 base s v = Some h2"
  shows "extends h0 h2 \<and> length h2 = length h1"
proof (cases base)
  case (VRef a)
  with assms(2) have a: "length h0 \<le> a" "a < length h1" by auto
  have c: "obj_refs (h1 ! a) \<subseteq> {length h0..<length h1}"
    using assms(1) a by (simp add: extends_def closed_on_def)
  show ?thesis
  proof (cases "h1 ! a")
    case (ObjO kvs)
    then have h2: "h2 = h1[a := ObjO (put (seg_to_string s) v kvs)]"
      using assms(4) VRef a by (simp add: set_member_def)
    have "obj_refs (ObjO (put (seg_to_string s) v kvs)) \<subseteq> {length h0..<length h1}"
      using put_refs [of "seg_to_string s" v kvs] c ObjO assms(3) by auto
    then show ?thesis using extends_update [OF assms(1) a] h2 by simp
  next
    case (ArrO vs)
    show ?thesis
    proof (cases s)
      case (SStr k)
      then show ?thesis using assms(4) VRef a ArrO by (simp add: set_member_def)
    next
      case (SNum i)
      then have i: "0 \<le> i"
        and h2: "h2 = h1[a := ArrO (if nat i < length vs then vs[nat i := v]
                                     else vs @ replicate (nat i - length vs) VUndefined @ [v])]"
        using assms(4) VRef a ArrO by (auto simp: set_member_def split: if_splits)
      have "set (vs[nat i := v]) \<subseteq> insert v (set vs)" by (rule set_update_subset_insert)
      then have "obj_refs (ArrO (if nat i < length vs then vs[nat i := v]
                                     else vs @ replicate (nat i - length vs) VUndefined @ [v]))
                  \<subseteq> {length h0..<length h1}"
        using c ArrO assms(3) by (auto split: if_splits)
      then show ?thesis using extends_update [OF assms(1) a] h2 by simp
    qed
  next
    case (DateO d)
    then show ?thesis using assms(4) VRef a by (simp add: set_member_def)
  qed
qed (use assms(4) in \<open>auto simp: set_member_def\<close>)

lemma write_path_extends:
  assumes "extends h0 h" and "val_refs root \<subseteq> {length h0..<length h}"
    and "write_path h root p lit = Some h2"
  shows "extends h0 h2 \<and> length h \<le> length h2"
proof -
  obtain v h1 where al: "alloc lit h = (v, h1)" by (cases "alloc lit h")
  from assms(3) al obtain base where b: "resolve h1 root (butlast p) = Some base"
    and sm: "set_member h1 base (last p) v = Some h2"
    by (auto simp: write_path_def split: if_splits option.splits)
  from alloc_snapshot(2,3) [OF al] have e1: "extends h h1" and rv: "val_refs v \<subseteq> {length h..<length h1}" .
  have ext: "extends h0 h1" using assms(1) e1 by (rule extends_trans)
  have l: "length h0 \<le> length h" "length h \<le> length h1"
    using assms(1) e1 by (auto dest: extends_length)
  have "closed_on {length h0..<length h1} h1" using ext by (simp add: extends_def)
  moreover have "val_refs root \<subseteq> {length h0..<length h1}" using assms(2) l by auto
  ultimately have "val_refs base \<subseteq> {length h0..<length h1}" using b by (rule resolve_refs)
  moreover have "val_refs v \<subseteq> {length h0..<length h1}" using rv l by auto
  ultimately show ?thesis using set_member_extends [OF ext _ _ sm] l by simp
qed

lemma delete_member_extends:
  assumes "extends h0 h1" and "val_refs base \<subseteq> {length h0..<length h1}"
    and "delete_member h1 base s = Some h2"
  shows "extends h0 h2 \<and> length h2 = length h1"
proof (cases base)
  case (VRef a)
  with assms(2) have a: "length h0 \<le> a" "a < length h1" by auto
  have c: "obj_refs (h1 ! a) \<subseteq> {length h0..<length h1}"
    using assms(1) a by (simp add: extends_def closed_on_def)
  show ?thesis
  proof (cases "h1 ! a")
    case (ObjO kvs)
    then have h2: "h2 = h1[a := ObjO (filter (\<lambda>kv. fst kv \<noteq> seg_to_string s) kvs)]"
      using assms(3) VRef a by (simp add: delete_member_def)
    have "obj_refs (ObjO (filter (\<lambda>kv. fst kv \<noteq> seg_to_string s) kvs)) \<subseteq> {length h0..<length h1}"
      using c ObjO by auto
    then show ?thesis using extends_update [OF assms(1) a] h2 by simp
  next
    case (ArrO vs)
    show ?thesis
    proof (cases "\<exists>i. s = SNum i \<and> 0 \<le> i \<and> nat i < length vs")
      case True
      then obtain i where i: "s = SNum i" "0 \<le> i" "nat i < length vs" by blast
      then have h2: "h2 = h1[a := ArrO (vs[nat i := VUndefined])]"
        using assms(3) VRef a ArrO by (simp add: delete_member_def)
      have "obj_refs (ArrO (vs[nat i := VUndefined])) \<subseteq> {length h0..<length h1}"
        using c ArrO erase_refs [of vs "nat i"] by simp
      then show ?thesis using extends_update [OF assms(1) a] h2 by simp
    next
      case False
      then have "h2 = h1" using assms(3) VRef a ArrO
        by (cases s) (auto simp: delete_member_def split: if_splits)
      then show ?thesis using assms(1) by simp
    qed
  next
    case (DateO d)
    then have "h2 = h1" using assms(3) VRef a by (simp add: delete_member_def)
    then show ?thesis using assms(1) by simp
  qed
qed (use assms(1,3) in \<open>auto simp: delete_member_def\<close>)

lemma copy_path_extends:
  assumes "extends h0 h" and "val_refs root \<subseteq> {length h0..<length h}"
    and "copy_path h root p q = Some h2"
  shows "extends h0 h2 \<and> length h \<le> length h2"
proof -
  from assms(3) obtain v base where v: "resolve h root q = Some v"
    and b: "resolve h root (butlast p) = Some base"
    and sm: "set_member h base (last p) v = Some h2"
    by (auto simp: copy_path_def split: if_splits option.splits)
  have c: "closed_on {length h0..<length h} h" using assms(1) by (simp add: extends_def)
  have "val_refs v \<subseteq> {length h0..<length h}" using c assms(2) v by (rule resolve_refs)
  moreover have "val_refs base \<subseteq> {length h0..<length h}" using c assms(2) b by (rule resolve_refs)
  ultimately show ?thesis using set_member_extends [OF assms(1) _ _ sm] by simp
qed

lemma delete_path_extends:
  assumes "extends h0 h" and "val_refs root \<subseteq> {length h0..<length h}"
    and "delete_path h root p = Some h2"
  shows "extends h0 h2 \<and> length h \<le> length h2"
proof -
  from assms(3) obtain base where b: "resolve h root (butlast p) = Some base"
    and dm: "delete_member h base (last p) = Some h2"
    by (auto simp: delete_path_def split: if_splits option.splits)
  have c: "closed_on {length h0..<length h} h" using assms(1) by (simp add: extends_def)
  have "val_refs base \<subseteq> {length h0..<length h}" using c assms(2) b by (rule resolve_refs)
  then show ?thesis using delete_member_extends [OF assms(1) _ dm] by simp
qed

lemma mutate_extends:
  assumes "extends h0 h" and "val_refs root \<subseteq> {length h0..<length h}"
    and "mutate h root m = Some h2"
  shows "extends h0 h2 \<and> length h \<le> length h2"
  using assms
  by (cases m) (auto dest: write_path_extends copy_path_extends delete_path_extends)

lemma owns_alloc:
  assumes "owns h0 st" and "alloc j (heap st) = (d, h')"
  shows "owns h0 (st\<lparr>heap := h', data := d\<rparr>)"
proof -
  from alloc_snapshot(2,3) [OF assms(2)]
  have e: "extends (heap st) h'" and r: "val_refs d \<subseteq> {length (heap st)..<length h'}" .
  have "extends h0 h'" using assms(1) e by (auto simp: owns_def intro: extends_trans)
  moreover have "length h0 \<le> length (heap st)" using assms(1) by (auto simp: owns_def dest: extends_length)
  ultimately show ?thesis using r by (auto simp: owns_def)
qed

lemma owns_useForm:
  assumes "useForm h0 init = Inr st"
  shows "owns h0 st \<and> initialData st = init"
proof -
  from assms obtain d h' where dc: "deepClone h0 init = Inr (d, h')"
    and st: "st = \<lparr>heap = h', displayErrors = False, changedAt = None, initialData = init, data = d\<rparr>"
    by (auto simp: useForm_def split: sum.splits)
  from dc obtain t j where "alloc j h0 = (d, h')" by (rule deepClone_Inr)
  from alloc_snapshot(2,3) [OF this] show ?thesis by (simp add: owns_def st)
qed

lemma owns_reset: "owns h0 st \<Longrightarrow> owns h0 (snd (reset st))"
proof -
  assume o: "owns h0 st"
  show ?thesis
  proof (cases "deepClone (heap st) (initialData st)")
    case (Inl e)
    then show ?thesis using o by (simp add: reset_def)
  next
    case (Inr r)
    obtain d h' where r: "r = (d, h')" by (cases r)
    from Inr r obtain t j where "alloc j (heap st) = (d, h')" by (auto elim: deepClone_Inr)
    from owns_alloc [OF o this] show ?thesis using Inr r by (simp add: reset_def owns_def)
  qed
qed

lemma owns_assign: "owns h0 st \<Longrightarrow> owns h0 (assign m st)"
proof -
  assume o: "owns h0 st"
  then have e: "extends h0 (heap st)" and r: "val_refs (data st) \<subseteq> {length h0..<length (heap st)}"
    by (simp_all add: owns_def)
  have grown: "owns h0 (st\<lparr>heap := h2\<rparr>)" if "extends h0 h2 \<and> length (heap st) \<le> length h2" for h2
    using that r by (auto simp: owns_def)
  show ?thesis
  proof (cases m)
    case (Write p lit)
    show ?thesis
    proof (cases "p = []")
      case True
      obtain v h1 where al: "alloc lit (heap st) = (v, h1)" by (cases "alloc lit (heap st)")
      from owns_alloc [OF o al] show ?thesis using True al Write by simp
    next
      case False
      show ?thesis
      proof (cases "write_path (heap st) (data st) p lit")
        case None
        then show ?thesis using o False Write by simp
      next
        case (Some h2)
        from grown [OF write_path_extends [OF e r Some]] show ?thesis using False Some Write by simp
      qed
    qed
  next
    case (Link p q)
    show ?thesis
    proof (cases "p = []")
      case True
      show ?thesis
      proof (cases "resolve (heap st) (data st) q")
        case None
        then show ?thesis using o True Link by simp
      next
        case (Some v)
        have "closed_on {length h0..<length (heap st)} (heap st)" using e by (simp add: extends_def)
        then have "val_refs v \<subseteq> {length h0..<length (heap st)}" using r Some by (rule resolve_refs)
        then show ?thesis using e True Some Link by (simp add: owns_def)
      qed
    next
      case False
      show ?thesis
      proof (cases "copy_path (heap st) (data st) p q")
        case None
        then show ?thesis using o False Link by simp
      next
        case (Some h2)
        from grown [OF copy_path_extends [OF e r Some]] show ?thesis using False Some Link by simp
      qed
    qed
  next
    case (Remove p)
    show ?thesis
    proof (cases "delete_path (heap st) (data st) p")
      case None
      then show ?thesis using o Remove by simp
    next
      case (Some h2)
      from grown [OF delete_path_extends [OF e r Some]] show ?thesis using Some Remove by simp
    qed
  qed
qed

lemma owns_submit: "owns h0 st \<Longrightarrow> owns h0 (after (submit sch cb st))"
  by (auto simp: submit_def owns_def split: SafeParseReturnType.splits)

lemma owns_toggle: "owns h0 st \<Longrightarrow> owns h0 (toggleDisplayErrors st)"
  by (simp add: toggleDisplayErrors_def owns_def)

lemma owns_step: "owns h0 st \<Longrightarrow> owns h0 (step sch cb x st)"
  by (cases x) (simp_all add: owns_assign owns_reset owns_submit owns_toggle)

lemma initialData_assign: "initialData (assign m st) = initialData st"
  by (cases m) (auto split: option.splits prod.splits)

lemma initialData_step: "initialData (step sch cb x st) = initialData st"
  by (cases x)
     (auto simp: initialData_assign reset_def submit_def toggleDisplayErrors_def
        split: SafeParseReturnType.splits sum.splits option.splits prod.splits)

lemma owns_run: "owns h0 st \<Longrightarrow> owns h0 (run sch cb xs st)"
  by (induction xs arbitrary: st) (simp_all add: owns_step)

lemma initialData_run: "initialData (run sch cb xs st) = initialData st"
  by (induction xs arbitrary: st) (simp_all add: initialData_step)

lemma json_of_safe: "json_safe t \<Longrightarrow> json_of t = Some t"
proof (induction t rule: json_of.induct)
  case (3 xs)
  then have "\<forall>x \<in> set xs. json_of x = Some x" by (auto simp: list_all_iff)
  then have "map (\<lambda>x. case json_of x of None \<Rightarrow> JNull | Some j \<Rightarrow> j) xs = xs"
    by (intro map_idI) simp
  then show ?case by simp
next
  case (4 kvs)
  then have "\<forall>kv \<in> set kvs. json_of (snd kv) = Some (snd kv)" by (auto simp: list_all_iff)
  then have eq: "map (\<lambda>kv. case json_of (snd kv) of None \<Rightarrow> [] | Some j \<Rightarrow> [(fst kv, j)]) kvs
           = map (\<lambda>kv. [kv]) kvs"
    by (intro map_cong) simp_all
  have "concat (map (\<lambda>kv. [kv]) kvs) = kvs" by (induction kvs) simp_all
  then show ?case by (simp add: eq)
qed simp_all

lemma run_append: "run sch cb (xs @ ys) st = run sch cb ys (run sch cb xs st)"
  by (induction xs arbitrary: st) simp_all

lemma reset_reachable:
  assumes "useForm h0 init = Inr st0" and "st = run sch cb ops st0"
  obtains t j where "snapshot h0 [] init = Inr t" and "json_of t = Some j"
    and "reset st = (Inr (), st\<lparr>heap := snd (alloc j (heap st)), data := fst (alloc j (heap st)),
                                 changedAt := None, displayErrors := False\<rparr>)"
    and "snapshot (snd (alloc j (heap st))) [] (fst (alloc j (heap st))) = Inr j"
proof -
  from assms(1) obtain d h' where dc: "deepClone h0 init = Inr (d, h')"
    by (auto simp: useForm_def split: sum.splits)
  then obtain t j where t: "snapshot h0 [] init = Inr t" and j: "json_of t = Some j"
    by (rule deepClone_Inr)
  have o: "owns h0 st" and i: "initialData st = init"
    using owns_useForm [OF assms(1)] by (simp_all add: assms(2) owns_run initialData_run)
  then have "prefix h0 (heap st)" by (simp add: owns_def extends_prefix)
  from deepClone_again [OF t j this] have "deepClone (heap st) (initialData st) = Inr (alloc j (heap st))"
    by (simp add: i)
  then have r: "reset st = (Inr (), st\<lparr>heap := snd (alloc j (heap st)), data := fst (alloc j (heap st)),
                                 changedAt := None, displayErrors := False\<rparr>)"
    by (simp add: reset_def split: prod.splits)
  have "snapshot (snd (alloc j (heap st))) [] (fst (alloc j (heap st))) = Inr j"
    by (rule alloc_snapshot(1)) simp
  with t j r show ?thesis by (rule that)
qed

section \<open>Lemmas: \<^verbatim>\<open>Object.assign\<close>\<close>

lemma put_absorb: "put k v (put k w ps) = put k v ps"
  by (induction ps) auto

lemma put_commute:
  "k \<noteq> k' \<Longrightarrow> k \<in> fst ` set ps \<Longrightarrow> put k v (put k' v' ps) = put k' v' (put k v ps)"
  by (induction ps) auto

lemma keys_put: "fst ` set (put k v ps) = insert k (fst ` set ps)"
  by (induction ps) auto

lemma map_of_put: "map_of (put k v ps) = (map_of ps)(k \<mapsto> v)"
  by (induction ps) auto

lemma put_all_simps [simp]:
  "put_all ps [] = ps"
  "put_all ps (kv # sp) = put_all (put (fst kv) (snd kv) ps) sp"
  "put_all ps (sp @ [kv]) = put (fst kv) (snd kv) (put_all ps sp)"
  by (simp_all add: put_all_def)

lemma keys_put_all: "fst ` set (put_all ps sp) = fst ` set ps \<union> fst ` set sp"
  by (induction sp arbitrary: ps) (auto simp: keys_put)

lemma map_of_put_all: "map_of (put_all ps sp) = map_of ps ++ map_of (rev sp)"
  by (induction sp arbitrary: ps) (auto simp: map_of_put)

lemma put_all_put:
  "fst ` set sp \<subseteq> fst ` set ps \<Longrightarrow> put k v (put_all (put k v ps) sp) = put k v (put_all ps sp)"
proof (induction sp arbitrary: ps)
  case Nil
  then show ?case by (simp add: put_absorb)
next
  case (Cons kv sp)
  show ?case
  proof (cases "fst kv = k")
    case True
    then show ?thesis by (simp add: put_absorb)
  next
    case False
    with Cons.prems have "put (fst kv) (snd kv) (put k v ps) = put k v (put (fst kv) (snd kv) ps)"
      by (intro put_commute) auto
    moreover have "fst ` set sp \<subseteq> fst ` set (put (fst kv) (snd kv) ps)"
      using Cons.prems by (auto simp: keys_put)
    ultimately show ?thesis using Cons.IH by simp
  qed
qed

lemma put_all_idem: "put_all (put_all ps sp) sp = put_all ps sp"
proof (induction sp rule: rev_induct)
  case Nil
  then show ?case by simp
next
  case (snoc kv sp)
  have "fst ` set sp \<subseteq> fst ` set (put_all ps sp)" by (simp add: keys_put_all)
  then have "put (fst kv) (snd kv) (put_all (put (fst kv) (snd kv) (put_all ps sp)) sp)
           = put (fst kv) (snd kv) (put_all (put_all ps sp) sp)"
    by (rule put_all_put)
  then show ?case using snoc by simp
qed

lemma Object_assign_length: "length (Object_assign h t s) = length h"
  by (auto simp: Object_assign_def split: val.splits obj.splits)

lemma Object_assign_idem:
  assumes "t \<noteq> s"
  shows "Object_assign (Object_assign h t s) t s = Object_assign h t s"
proof (cases "\<exists>a b. t = VRef a \<and> s = VRef b \<and> a < length h \<and> b < length h")
  case False
  then have "Object_assign h t s = h"
    by (auto simp: Object_assign_def split: val.splits)
  then show ?thesis by simp
next
  case True
  then obtain a b where ab: "t = VRef a" "s = VRef b" "a < length h" "b < length h" by blast
  with assms have ne: "a \<noteq> b" by simp
  show ?thesis
  proof (cases "h ! a")
    case (ObjO tps)
    show ?thesis
    proof (cases "h ! b")
      case (ObjO sps)
      then show ?thesis using ab ne \<open>h ! a = ObjO tps\<close> put_all_idem [of tps sps]
        by (simp add: Object_assign_def put_all_def)
    next
      case (ArrO svs)
      then show ?thesis using ab ne \<open>h ! a = ObjO tps\<close>
          put_all_idem [of tps "zip (map digits [0..<length svs]) svs"]
        by (simp add: Object_assign_def put_all_def)
    next
      case (DateO d)
      then show ?thesis using ab ne \<open>h ! a = ObjO tps\<close> by (simp add: Object_assign_def)
    qed
  next
    case (ArrO tvs)
    then show ?thesis using ab ne by (cases "h ! b") (simp_all add: Object_assign_def)
  next
    case (DateO d)
    then show ?thesis using ab ne by (cases "h ! b") (simp_all add: Object_assign_def)
  qed
qed

section \<open>Lemmas: what never changes in a controller of \<^verbatim>\<open>useFormComponent\<close>\<close>

lemma fc_step_consts:
  "input (fc_step sch cb e st) = input st \<and> initialInput (fc_step sch cb e st) = initialInput st
   \<and> opts (fc_step sch cb e st) = opts st"
  by (cases e)
     (auto simp: on_mounted_def watcher_start_def watcher_resume_def trigger_def flush_def fc_submit_def
        fc_reset_def toggleDisplayErrors_def split: option.splits SafeParseReturnType.splits)

lemma fc_run_consts:
  "input (fc_run sch cb es st) = input st \<and> initialInput (fc_run sch cb es st) = initialInput st
   \<and> opts (fc_run sch cb es st) = opts st"
  by (induction es arbitrary: st) (simp_all add: fc_step_consts)

lemma useFormComponent_consts:
  "useFormComponent h inp options = Inr st \<Longrightarrow>
     input st = inp \<and> opts st = options \<and> status st = Parsing \<and> parseResultRef st = None
     \<and> pending st = [] \<and> \<not> mounted st \<and> changedAt st = None"
  by (auto simp: useFormComponent_def split: sum.splits prod.splits)

lemma snapshot_Inr_in_heap: "snapshot h stack (VRef a) = Inr t \<Longrightarrow> a < length h"
  by (cases "a < length h") simp_all

lemma useFormComponent_Inr:
  assumes "useFormComponent h inp options = Inr c0"
  obtains t j where "snapshot h [] inp = Inr t" and "json_of t = Some j"
    and "alloc j h = (initialInput c0, heap c0)" and "input c0 = inp"
  using assms
  by (auto simp: useFormComponent_def JSON_stringify_def JSON_parse_def
      split: sum.splits option.splits prod.splits)

lemma input_not_snapshot:
  assumes "useFormComponent h (VRef a) options = Inr c0"
  shows "initialInput c0 \<noteq> VRef a" and "a < length h" and "length h \<le> length (heap c0)"
    and "val_refs (initialInput c0) \<subseteq> {length h..<length (heap c0)}"
proof -
  from assms obtain t j where t: "snapshot h [] (VRef a) = Inr t"
    and al: "alloc j h = (initialInput c0, heap c0)"
    by (rule useFormComponent_Inr)
  from t show a: "a < length h" by (rule snapshot_Inr_in_heap)
  from alloc_snapshot(3) [OF al] show r: "val_refs (initialInput c0) \<subseteq> {length h..<length (heap c0)}" .
  from alloc_snapshot(2) [OF al] show "length h \<le> length (heap c0)" by (rule extends_length)
  from a r show "initialInput c0 \<noteq> VRef a" by auto
qed

lemma Object_assign_prim: "\<forall>a. t \<noteq> VRef a \<Longrightarrow> Object_assign h t s = h"
  by (cases t) (simp_all add: Object_assign_def)

lemma fc_reset_twice:
  assumes "useFormComponent h inp options = Inr c0" and "c = fc_run sch cb es c0"
  shows "heap (fc_reset (fc_reset c)) = heap (fc_reset c)"
proof (cases "\<exists>a. inp = VRef a")
  case True
  then obtain a where a: "inp = VRef a" ..
  have "input c = VRef a" "initialInput c = initialInput c0"
    using assms useFormComponent_consts [OF assms(1)] by (simp_all add: fc_run_consts a)
  moreover have "initialInput c0 \<noteq> VRef a" using assms(1) a input_not_snapshot(1) by blast
  ultimately show ?thesis
    using Object_assign_idem [of "VRef a" "initialInput c0" "heap c"] by (simp add: fc_reset_def)
next
  case False
  moreover have "input c = inp"
    using assms useFormComponent_consts [OF assms(1)] by (simp add: fc_run_consts)
  ultimately show ?thesis by (simp add: fc_reset_def Object_assign_prim)
qed

section \<open>Lemmas: the snapshot of \<^verbatim>\<open>useFormComponent\<close>\<close>

lemma set_member_length: "set_member h base s v = Some h2 \<Longrightarrow> length h2 = length h"
  by (auto simp: set_member_def split: val.splits obj.splits seg.splits if_splits)

lemma write_path_length: "write_path h root p lit = Some h2 \<Longrightarrow> length h \<le> length h2"
proof -
  assume w: "write_path h root p lit = Some h2"
  obtain v h1 where al: "alloc lit h = (v, h1)" by (cases "alloc lit h")
  from w al obtain base where "set_member h1 base (last p) v = Some h2"
    by (auto simp: write_path_def split: if_splits option.splits)
  then have "length h2 = length h1" by (rule set_member_length)
  moreover have "length h \<le> length h1" using alloc_snapshot(2) [OF al] by (rule extends_length)
  ultimately show ?thesis by simp
qed

lemma delete_member_length: "delete_member h base s = Some h2 \<Longrightarrow> length h2 = length h"
  by (auto simp: delete_member_def split: val.splits obj.splits seg.splits if_splits)

lemma mutate_length: "mutate h root m = Some h2 \<Longrightarrow> length h \<le> length h2"
proof (cases m)
  case (Write p lit)
  assume "mutate h root m = Some h2"
  then show ?thesis using Write by (simp add: write_path_length)
next
  case (Link p q)
  assume "mutate h root m = Some h2"
  then obtain base v where "set_member h base (last p) v = Some h2"
    using Link by (auto simp: copy_path_def split: if_splits option.splits)
  then show ?thesis by (simp add: set_member_length)
next
  case (Remove p)
  assume "mutate h root m = Some h2"
  then obtain base where "delete_member h base (last p) = Some h2"
    using Remove by (auto simp: delete_path_def split: if_splits option.splits)
  then show ?thesis by (simp add: delete_member_length)
qed

lemma fc_step_length: "length (heap st) \<le> length (heap (fc_step sch cb e st))"
  by (cases e)
     (auto simp: on_mounted_def watcher_start_def watcher_resume_def trigger_def flush_def fc_submit_def
        fc_reset_def toggleDisplayErrors_def Object_assign_length mutate_length
        split: option.splits SafeParseReturnType.splits)

lemma fc_run_length: "length (heap st) \<le> length (heap (fc_run sch cb es st))"
proof (induction es arbitrary: st)
  case Nil
  then show ?case by simp
next
  case (Cons e es)
  have "length (heap st) \<le> length (heap (fc_step sch cb e st))" by (rule fc_step_length)
  also have "\<dots> \<le> length (heap (fc_run sch cb es (fc_step sch cb e st)))" by (rule Cons.IH)
  finally show ?case by simp
qed

lemma get_member_avoids:
  assumes "unreferenced s h" and "s \<notin> val_refs base" and "get_member h base k = Some v"
  shows "s \<notin> val_refs v"
proof (cases base)
  case (VRef a)
  show ?thesis
  proof (cases "a < length h")
    case False
    then show ?thesis using assms(3) VRef by (simp add: get_member_def)
  next
    case True
    with assms(1) have no: "s \<notin> obj_refs (h ! a)" by (simp add: unreferenced_def)
    show ?thesis
    proof (cases "h ! a")
      case (ObjO kvs)
      show ?thesis
      proof (cases "map_of kvs (seg_to_string k)")
        case None
        then show ?thesis using assms(3) VRef True ObjO by (simp add: get_member_def)
      next
        case (Some w)
        then have "v = w" using assms(3) VRef True ObjO by (simp add: get_member_def)
        moreover from Some have "(seg_to_string k, w) \<in> set kvs" by (rule map_of_SomeD)
        ultimately show ?thesis using no ObjO by fastforce
      qed
    next
      case (ArrO vs)
      then have "\<forall>x \<in> set vs. s \<notin> val_refs x" using no by auto
      then have "\<forall>i < length vs. s \<notin> val_refs (vs ! i)" by simp
      then show ?thesis using assms(3) VRef True ArrO
        by (cases k) (auto simp: get_member_def split: if_splits)
    next
      case (DateO d)
      then show ?thesis using assms(3) VRef True by (auto simp: get_member_def)
    qed
  qed
qed (use assms(3) in \<open>auto simp: get_member_def\<close>)

lemma resolve_avoids:
  "unreferenced s h \<Longrightarrow> s \<notin> val_refs base \<Longrightarrow> resolve h base p = Some v \<Longrightarrow> s \<notin> val_refs v"
proof (induction p arbitrary: base)
  case Nil
  then show ?case by simp
next
  case (Cons k p)
  then obtain w where w: "get_member h base k = Some w" "resolve h w p = Some v"
    by (auto split: option.splits)
  from get_member_avoids [OF Cons.prems(1,2) w(1)] have "s \<notin> val_refs w" .
  then show ?case using Cons.IH [OF Cons.prems(1) _ w(2)] by simp
qed

lemma unreferenced_update:
  assumes "unreferenced s h" and "s \<notin> obj_refs ob"
  shows "unreferenced s (h[a := ob])"
  unfolding unreferenced_def
proof (intro allI impI)
  fix b assume b: "b < length (h[a := ob])"
  show "s \<notin> obj_refs (h[a := ob] ! b)"
  proof (cases "b = a")
    case True
    then show ?thesis using b assms(2) by simp
  next
    case False
    then show ?thesis using b assms(1) by (simp add: unreferenced_def)
  qed
qed

lemma set_member_avoids:
  assumes "unreferenced s h" and "s \<notin> val_refs base" and "s \<notin> val_refs v"
    and "set_member h base k v = Some h2"
  shows "unreferenced s h2 \<and> h2 ! s = h ! s"
proof (cases base)
  case (VRef a)
  with assms(2) have ne: "a \<noteq> s" by simp
  show ?thesis
  proof (cases "a < length h")
    case False
    then show ?thesis using assms(4) VRef by (simp add: set_member_def)
  next
    case True
    with assms(1) have no: "s \<notin> obj_refs (h ! a)" by (simp add: unreferenced_def)
    show ?thesis
    proof (cases "h ! a")
      case (ObjO kvs)
      then have h2: "h2 = h[a := ObjO (put (seg_to_string k) v kvs)]"
        using assms(4) VRef True by (simp add: set_member_def)
      have "s \<notin> obj_refs (ObjO (put (seg_to_string k) v kvs))"
        using put_refs [of "seg_to_string k" v kvs] no ObjO assms(3) by auto
      then show ?thesis using unreferenced_update [OF assms(1)] h2 ne by simp
    next
      case (ArrO vs)
      show ?thesis
      proof (cases k)
        case (SStr x)
        then show ?thesis using assms(4) VRef True ArrO by (simp add: set_member_def)
      next
        case (SNum i)
        then have h2: "h2 = h[a := ArrO (if nat i < length vs then vs[nat i := v]
                                     else vs @ replicate (nat i - length vs) VUndefined @ [v])]"
          using assms(4) VRef True ArrO by (auto simp: set_member_def split: if_splits)
        have "set (vs[nat i := v]) \<subseteq> insert v (set vs)" by (rule set_update_subset_insert)
        then have "s \<notin> obj_refs (ArrO (if nat i < length vs then vs[nat i := v]
                                     else vs @ replicate (nat i - length vs) VUndefined @ [v]))"
          using no ArrO assms(3) by (auto split: if_splits)
        then show ?thesis using unreferenced_update [OF assms(1)] h2 ne by simp
      qed
    next
      case (DateO d)
      then show ?thesis using assms(4) VRef True by (simp add: set_member_def)
    qed
  qed
qed (use assms(4) in \<open>auto simp: set_member_def\<close>)

lemma extends_unreferenced:
  assumes "unreferenced s h" and "extends h h1" and "s < length h"
  shows "unreferenced s h1"
  unfolding unreferenced_def
proof (intro allI impI)
  fix a assume a: "a < length h1"
  show "s \<notin> obj_refs (h1 ! a)"
  proof (cases "a < length h")
    case True
    then show ?thesis using assms(1) extends_nth [OF assms(2)] by (simp add: unreferenced_def)
  next
    case False
    then have "obj_refs (h1 ! a) \<subseteq> {length h..<length h1}"
      using assms(2) a by (simp add: extends_def closed_on_def)
    then show ?thesis using assms(3) by auto
  qed
qed

lemma write_path_avoids:
  assumes "unreferenced s h" and "s < length h" and "s \<notin> val_refs root"
    and "write_path h root p lit = Some h2"
  shows "unreferenced s h2 \<and> h2 ! s = h ! s"
proof -
  obtain v h1 where al: "alloc lit h = (v, h1)" by (cases "alloc lit h")
  from assms(4) al obtain base where b: "resolve h1 root (butlast p) = Some base"
    and sm: "set_member h1 base (last p) v = Some h2"
    by (auto simp: write_path_def split: if_splits option.splits)
  from alloc_snapshot(2,3) [OF al] have e: "extends h h1" and rv: "val_refs v \<subseteq> {length h..<length h1}" .
  have u1: "unreferenced s h1" using assms(1) e assms(2) by (rule extends_unreferenced)
  have "s \<notin> val_refs base" using u1 assms(3) b by (rule resolve_avoids)
  moreover have "s \<notin> val_refs v" using rv assms(2) by auto
  ultimately have "unreferenced s h2 \<and> h2 ! s = h1 ! s" using set_member_avoids [OF u1 _ _ sm] by simp
  then show ?thesis using extends_nth [OF e assms(2)] by simp
qed

lemma delete_member_avoids:
  assumes "unreferenced s h" and "s \<notin> val_refs base" and "delete_member h base k = Some h2"
  shows "unreferenced s h2 \<and> h2 ! s = h ! s"
proof (cases base)
  case (VRef a)
  with assms(2) have ne: "a \<noteq> s" by simp
  show ?thesis
  proof (cases "a < length h")
    case False
    then show ?thesis using assms(3) VRef by (simp add: delete_member_def)
  next
    case True
    with assms(1) have no: "s \<notin> obj_refs (h ! a)" by (simp add: unreferenced_def)
    show ?thesis
    proof (cases "h ! a")
      case (ObjO kvs)
      then have h2: "h2 = h[a := ObjO (filter (\<lambda>kv. fst kv \<noteq> seg_to_string k) kvs)]"
        using assms(3) VRef True by (simp add: delete_member_def)
      have "s \<notin> obj_refs (ObjO (filter (\<lambda>kv. fst kv \<noteq> seg_to_string k) kvs))"
        using no ObjO by auto
      then show ?thesis using unreferenced_update [OF assms(1)] h2 ne by simp
    next
      case (ArrO vs)
      show ?thesis
      proof (cases "\<exists>i. k = SNum i \<and> 0 \<le> i \<and> nat i < length vs")
        case True
        then obtain i where i: "k = SNum i" "0 \<le> i" "nat i < length vs" by blast
        then have h2: "h2 = h[a := ArrO (vs[nat i := VUndefined])]"
          using assms(3) VRef \<open>a < length h\<close> ArrO by (simp add: delete_member_def)
        have "s \<notin> obj_refs (ArrO (vs[nat i := VUndefined]))"
          using no ArrO erase_refs [of vs "nat i"] by auto
        then show ?thesis using unreferenced_update [OF assms(1)] h2 ne by simp
      next
        case False
        then have "h2 = h" using assms(3) VRef \<open>a < length h\<close> ArrO
          by (cases k) (auto simp: delete_member_def split: if_splits)
        then show ?thesis using assms(1) by simp
      qed
    next
      case (DateO d)
      then have "h2 = h" using assms(3) VRef True by (simp add: delete_member_def)
      then show ?thesis using assms(1) by simp
    qed
  qed
qed (use assms(1,3) in \<open>auto simp: delete_member_def\<close>)

lemma mutate_avoids:
  assumes "unreferenced s h" and "s < length h" and "s \<notin> val_refs root"
    and "mutate h root m = Some h2"
  shows "unreferenced s h2 \<and> h2 ! s = h ! s"
proof (cases m)
  case (Write p lit)
  then show ?thesis using write_path_avoids [OF assms(1,2,3)] assms(4) by simp
next
  case (Link p q)
  with assms(4) obtain v base where v: "resolve h root q = Some v"
    and b: "resolve h root (butlast p) = Some base"
    and sm: "set_member h base (last p) v = Some h2"
    by (auto simp: copy_path_def split: if_splits option.splits)
  have "s \<notin> val_refs v" using assms(1,3) v by (rule resolve_avoids)
  moreover have "s \<notin> val_refs base" using assms(1,3) b by (rule resolve_avoids)
  ultimately show ?thesis using set_member_avoids [OF assms(1) _ _ sm] by simp
next
  case (Remove p)
  with assms(4) obtain base where b: "resolve h root (butlast p) = Some base"
    and dm: "delete_member h base (last p) = Some h2"
    by (auto simp: delete_path_def split: if_splits option.splits)
  have "s \<notin> val_refs base" using assms(1,3) b by (rule resolve_avoids)
  then show ?thesis using delete_member_avoids [OF assms(1) _ dm] by simp
qed

lemma put_all_refs:
  "(\<Union>kv \<in> set (put_all ps sp). val_refs (snd kv))
     \<subseteq> (\<Union>kv \<in> set ps. val_refs (snd kv)) \<union> (\<Union>kv \<in> set sp. val_refs (snd kv))"
proof (induction sp arbitrary: ps)
  case Nil
  then show ?case by simp
next
  case (Cons kv sp)
  show ?case using Cons.IH [of "put (fst kv) (snd kv) ps"] put_refs [of "fst kv" "snd kv" ps]
    by (simp del: UN_simps) blast
qed

lemma Object_assign_avoids:
  assumes "unreferenced s h" and "t \<noteq> VRef s"
  shows "unreferenced s (Object_assign h t (VRef s)) \<and> Object_assign h t (VRef s) ! s = h ! s"
proof (cases "\<exists>a. t = VRef a \<and> a < length h \<and> s < length h")
  case False
  then have "Object_assign h t (VRef s) = h" by (auto simp: Object_assign_def split: val.splits)
  then show ?thesis using assms(1) by simp
next
  case True
  then obtain a where a: "t = VRef a" "a < length h" "s < length h" by blast
  with assms(2) have ne: "a \<noteq> s" by simp
  from assms(1) a have na: "s \<notin> obj_refs (h ! a)" and ns: "s \<notin> obj_refs (h ! s)"
    by (simp_all add: unreferenced_def)
  show ?thesis
  proof (cases "h ! a")
    case (ObjO tps)
    show ?thesis
    proof (cases "h ! s")
      case (ObjO sps)
      have "s \<notin> obj_refs (ObjO (put_all tps sps))"
        using put_all_refs [of tps sps] na ns ObjO \<open>h ! a = ObjO tps\<close> by auto
      then show ?thesis using unreferenced_update [OF assms(1)] a ne ObjO \<open>h ! a = ObjO tps\<close>
        by (simp add: Object_assign_def)
    next
      case (ArrO svs)
      have "set (zip (map digits [0..<length svs]) svs) \<subseteq> UNIV \<times> set svs"
        by (auto dest: set_zip_rightD)
      then have "(\<Union>kv \<in> set (zip (map digits [0..<length svs]) svs). val_refs (snd kv))
                  \<subseteq> (\<Union>v \<in> set svs. val_refs v)" by fastforce
      moreover have "s \<notin> (\<Union>kv \<in> set tps. val_refs (snd kv))" "s \<notin> (\<Union>v \<in> set svs. val_refs v)"
        using na ns ArrO \<open>h ! a = ObjO tps\<close> by simp_all
      ultimately have "s \<notin> (\<Union>kv \<in> set (put_all tps (zip (map digits [0..<length svs]) svs)).
                              val_refs (snd kv))"
        using put_all_refs [of tps "zip (map digits [0..<length svs]) svs"] by blast
      then have "s \<notin> obj_refs (ObjO (put_all tps (zip (map digits [0..<length svs]) svs)))"
        by simp
      then show ?thesis using unreferenced_update [OF assms(1)] a ne ArrO \<open>h ! a = ObjO tps\<close>
        by (simp add: Object_assign_def)
    next
      case (DateO d)
      then show ?thesis using a assms(1) \<open>h ! a = ObjO tps\<close> by (simp add: Object_assign_def)
    qed
  next
    case (ArrO tvs)
    show ?thesis
    proof (cases "h ! s")
      case (ArrO svs)
      have "set (drop (length svs) tvs) \<subseteq> set tvs" by (rule set_drop_subset)
      then have "s \<notin> obj_refs (ArrO (svs @ drop (length svs) tvs))"
        using na ns ArrO \<open>h ! a = ArrO tvs\<close> by auto
      then show ?thesis using unreferenced_update [OF assms(1)] a ne ArrO \<open>h ! a = ArrO tvs\<close>
        by (simp add: Object_assign_def)
    qed (use a assms(1) \<open>h ! a = ArrO tvs\<close> in \<open>simp_all add: Object_assign_def\<close>)
  next
    case (DateO d)
    then show ?thesis using a assms(1) by (cases "h ! s") (simp_all add: Object_assign_def)
  qed
qed

lemma downward_snoc:
  assumes "downward n h" and "obj_refs ob \<subseteq> {n..<length h}"
  shows "downward n (h @ [ob])"
  unfolding downward_def
proof (intro allI impI)
  fix a assume a: "n \<le> a \<and> a < length (h @ [ob])"
  show "obj_refs ((h @ [ob]) ! a) \<subseteq> {n..<a}"
  proof (cases "a < length h")
    case True
    then show ?thesis using assms(1) a by (simp add: downward_def nth_append)
  next
    case False
    with a have "a = length h" by simp
    then show ?thesis using assms(2) by simp
  qed
qed

lemma alloc_downward:
  "(\<forall>v h'. alloc t h = (v, h') \<longrightarrow> n \<le> length h \<longrightarrow> downward n h \<longrightarrow> downward n h')"
  "(\<forall>vs h'. alloc_list ts h = (vs, h') \<longrightarrow> n \<le> length h \<longrightarrow> downward n h \<longrightarrow> downward n h')"
  "(\<forall>ps h'. alloc_props kvs h = (ps, h') \<longrightarrow> n \<le> length h \<longrightarrow> downward n h \<longrightarrow> downward n h')"
proof (induction t h and ts h and kvs h rule: alloc_alloc_list_alloc_props.induct)
  case (6 s h)
  then show ?case by (auto intro: downward_snoc)
next
  case (7 xs h)
  show ?case
  proof (intro allI impI)
    fix v h'' assume al: "alloc (JArr xs) h = (v, h'')" and n: "n \<le> length h" and d: "downward n h"
    obtain vs h' where l: "alloc_list xs h = (vs, h')" by (cases "alloc_list xs h")
    with al have h'': "h'' = h' @ [ArrO vs]" by simp
    from 7 l n d have d': "downward n h'" by simp
    from alloc_ok_all(2) [of xs h] l have all: "list_all2 (alloc_ok h h') vs xs" by simp
    have "\<forall>x \<in> set vs. val_refs x \<subseteq> {length h..<length h'}"
      using alloc_ok_refs [OF all] by blast
    then have "obj_refs (ArrO vs) \<subseteq> {n..<length h'}" using n by fastforce
    then show "downward n h''" unfolding h'' by (rule downward_snoc [OF d'])
  qed
next
  case (8 kvs h)
  show ?case
  proof (intro allI impI)
    fix v h'' assume al: "alloc (JObj kvs) h = (v, h'')" and n: "n \<le> length h" and d: "downward n h"
    obtain ps h' where l: "alloc_props kvs h = (ps, h')" by (cases "alloc_props kvs h")
    with al have h'': "h'' = h' @ [ObjO ps]" by simp
    from 8 l n d have d': "downward n h'" by simp
    from alloc_ok_all(3) [of kvs h] l
    have all: "list_all2 (\<lambda>p kv. fst p = fst kv \<and> alloc_ok h h' (snd p) (snd kv)) ps kvs" by simp
    have "\<forall>x \<in> set ps. val_refs (snd x) \<subseteq> {length h..<length h'}"
      using alloc_ok_refs_props [OF all] by blast
    then have "obj_refs (ObjO ps) \<subseteq> {n..<length h'}" using n by fastforce
    then show "downward n h''" unfolding h'' by (rule downward_snoc [OF d'])
  qed
next
  case (10 x xs h)
  show ?case
  proof (intro allI impI)
    fix vs' h2 assume al: "alloc_list (x # xs) h = (vs', h2)" and n: "n \<le> length h"
      and d: "downward n h"
    obtain v h1 where a1: "alloc x h = (v, h1)" by (cases "alloc x h")
    obtain vs where a2: "alloc_list xs h1 = (vs, h2)" using al a1 by (auto split: prod.splits)
    have d1: "downward n h1" using "10.IH"(1) a1 n d by simp
    have "length h \<le> length h1" using alloc_snapshot(2) [OF a1] by (rule extends_length)
    then show "downward n h2" using "10.IH"(2) [OF a1 [symmetric]] a2 n d1 by simp
  qed
next
  case (12 kv kvs h)
  show ?case
  proof (intro allI impI)
    fix ps' h2 assume al: "alloc_props (kv # kvs) h = (ps', h2)" and n: "n \<le> length h"
      and d: "downward n h"
    obtain v h1 where a1: "alloc (snd kv) h = (v, h1)" by (cases "alloc (snd kv) h")
    obtain ps where a2: "alloc_props kvs h1 = (ps, h2)" using al a1 by (auto split: prod.splits)
    have d1: "downward n h1" using "12.IH"(1) a1 n d by simp
    have "length h \<le> length h1" using alloc_snapshot(2) [OF a1] by (rule extends_length)
    then show "downward n h2" using "12.IH"(2) [OF a1 [symmetric]] a2 n d1 by simp
  qed
qed simp_all

lemma alloc_root_last: "alloc j h = (VRef s, h') \<Longrightarrow> Suc s = length h'"
  by (cases j) (auto split: prod.splits)

lemma alloc_unreferenced:
  assumes "closed_on {..<length h} h" and "alloc j h = (VRef s, h')"
  shows "unreferenced s h'"
  unfolding unreferenced_def
proof (intro allI impI)
  fix a assume a: "a < length h'"
  have e: "extends h h'" and r: "val_refs (VRef s) \<subseteq> {length h..<length h'}"
    using alloc_snapshot(2,3) [OF assms(2)] by simp_all
  have last: "Suc s = length h'" using assms(2) by (rule alloc_root_last)
  have "downward (length h) h" by (auto simp: downward_def)
  then have d: "downward (length h) h'" using alloc_downward(1) [of j h "length h"] assms(2) by simp
  show "s \<notin> obj_refs (h' ! a)"
  proof (cases "a < length h")
    case True
    then have "obj_refs (h' ! a) \<subseteq> {..<length h}"
      using assms(1) extends_nth [OF e] by (simp add: closed_on_def)
    then show ?thesis using r by auto
  next
    case False
    then have "obj_refs (h' ! a) \<subseteq> {length h..<a}" using d a by (simp add: downward_def)
    then show ?thesis using a last by auto
  qed
qed

lemma fc_step_snapshot_fixed:
  assumes "unreferenced s (heap st)" and "s < length (heap st)" and "input st \<noteq> VRef s"
    and "initialInput st = VRef s"
  shows "unreferenced s (heap (fc_step sch cb e st)) \<and> heap (fc_step sch cb e st) ! s = heap st ! s"
proof (cases e)
  case (Mutate m)
  show ?thesis
  proof (cases "mutate (heap st) (input st) m")
    case None
    then show ?thesis using assms(1) Mutate by simp
  next
    case (Some h2)
    have "s \<notin> val_refs (input st)" using assms(3) by (cases "input st") auto
    from mutate_avoids [OF assms(1,2) this Some] show ?thesis
      using Mutate Some by (simp add: trigger_def watcher_start_def)
  qed
next
  case ResetE
  from Object_assign_avoids [OF assms(1,3)] show ?thesis
    using ResetE assms(4) by (simp add: trigger_def watcher_start_def fc_reset_def)
qed (use assms(1) in \<open>auto simp: on_mounted_def watcher_start_def watcher_resume_def flush_def
        fc_submit_def toggleDisplayErrors_def split: SafeParseReturnType.splits\<close>)

lemma fc_run_snapshot_fixed:
  "unreferenced s (heap st) \<Longrightarrow> s < length (heap st) \<Longrightarrow> input st \<noteq> VRef s
     \<Longrightarrow> initialInput st = VRef s
     \<Longrightarrow> heap (fc_run sch cb es st) ! s = heap st ! s"
proof (induction es arbitrary: st)
  case Nil
  then show ?case by simp
next
  case (Cons e es)
  let ?st = "fc_step sch cb e st"
  from fc_step_snapshot_fixed [OF Cons.prems, of sch cb e]
  have u: "unreferenced s (heap ?st)" and same: "heap ?st ! s = heap st ! s" by simp_all
  have l: "s < length (heap ?st)"
    using Cons.prems(2) fc_step_length [of st sch cb e] by simp
  have "input ?st \<noteq> VRef s" "initialInput ?st = VRef s"
    using Cons.prems(3,4) by (simp_all add: fc_step_consts)
  from Cons.IH [OF u l this] same show ?case by simp
qed

lemma snapshot_ObjO_keys:
  assumes "h ! a = ObjO kvs" and "snapshot h stack (VRef a) = Inr tr"
  obtains ts where "tr = JObj (zip (map fst kvs) ts)" and "length ts = length kvs"
proof -
  from assms(2) have a: "a \<notin> set stack" "a < length h" by (auto split: if_splits)
  with assms obtain ts where c: "collect (map (\<lambda>kv. snapshot h (a # stack) (snd kv)) kvs) = Inr ts"
    and tr: "tr = JObj (zip (map fst kvs) ts)"
    by (auto split: sum.splits)
  from c have "map (\<lambda>kv. snapshot h (a # stack) (snd kv)) kvs = map Inr ts"
    by (simp add: collect_Inr_iff)
  then have "length ts = length kvs" by (metis length_map)
  with tr show ?thesis by (rule that)
qed

lemma json_of_JObj_keys:
  assumes "json_of (JObj kvs) = Some j"
  obtains kvs' where "j = JObj kvs'" and "fst ` set kvs' \<subseteq> fst ` set kvs"
proof -
  let ?kvs' = "concat (map (\<lambda>kv. case json_of (snd kv) of None \<Rightarrow> [] | Some j \<Rightarrow> [(fst kv, j)]) kvs)"
  have "j = JObj ?kvs'" using assms by simp
  moreover have "fst ` set ?kvs' \<subseteq> fst ` set kvs" by (fastforce split: option.splits)
  ultimately show ?thesis by (rule that)
qed

lemma alloc_JObj_root:
  assumes "alloc (JObj kvs) h = (v, h')"
  obtains s ps where "v = VRef s" and "h' ! s = ObjO ps" and "map fst ps = map fst kvs"
proof -
  obtain ps h1 where l: "alloc_props kvs h = (ps, h1)" by (cases "alloc_props kvs h")
  with assms have v: "v = VRef (length h1)" and h': "h' = h1 @ [ObjO ps]" by simp_all
  from alloc_ok_all(3) [of kvs h] l
  have "list_all2 (\<lambda>p kv. fst p = fst kv \<and> alloc_ok h h1 (snd p) (snd kv)) ps kvs" by simp
  then have "map fst ps = map fst kvs" by (rule alloc_ok_keys)
  moreover have "h' ! length h1 = ObjO ps" by (simp add: h')
  ultimately show ?thesis using v that by blast
qed

lemma set_member_keeps_object:
  assumes "set_member h base k v = Some h2" and "h ! t = ObjO ps" and "t < length h"
  shows "\<exists>ps'. h2 ! t = ObjO ps'"
proof (cases base)
  case (VRef a)
  show ?thesis
  proof (cases "a = t")
    case True
    then show ?thesis using assms VRef by (auto simp: set_member_def)
  next
    case False
    then have "h2 ! t = h ! t" using assms(1) VRef
      by (auto simp: set_member_def split: if_splits obj.splits seg.splits)
    then show ?thesis using assms(2) by simp
  qed
qed (use assms(1) in \<open>auto simp: set_member_def\<close>)

lemma write_path_keeps_object:
  assumes "write_path h root p lit = Some h2" and "h ! t = ObjO ps" and "t < length h"
  shows "\<exists>ps'. h2 ! t = ObjO ps'"
proof -
  obtain v h1 where al: "alloc lit h = (v, h1)" by (cases "alloc lit h")
  from assms(1) al obtain base where sm: "set_member h1 base (last p) v = Some h2"
    by (auto simp: write_path_def split: if_splits option.splits)
  have e: "extends h h1" using alloc_snapshot(2) [OF al] .
  have "h1 ! t = ObjO ps" "t < length h1"
    using extends_nth [OF e assms(3)] extends_length [OF e] assms(2,3) by simp_all
  with sm show ?thesis by (rule set_member_keeps_object)
qed

lemma delete_member_keeps_object:
  assumes "delete_member h base k = Some h2" and "h ! t = ObjO ps" and "t < length h"
  shows "\<exists>ps'. h2 ! t = ObjO ps'"
proof (cases base)
  case (VRef a)
  show ?thesis
  proof (cases "a = t")
    case True
    then show ?thesis using assms VRef by (auto simp: delete_member_def)
  next
    case False
    then have "h2 ! t = h ! t" using assms(1) VRef
      by (auto simp: delete_member_def split: if_splits obj.splits seg.splits)
    then show ?thesis using assms(2) by simp
  qed
qed (use assms(1,2) in \<open>auto simp: delete_member_def\<close>)

lemma mutate_keeps_object:
  assumes "mutate h root m = Some h2" and "h ! t = ObjO ps" and "t < length h"
  shows "\<exists>ps'. h2 ! t = ObjO ps'"
proof (cases m)
  case (Write p lit)
  then show ?thesis using write_path_keeps_object [OF _ assms(2,3)] assms(1) by simp
next
  case (Link p q)
  with assms(1) obtain v base where "set_member h base (last p) v = Some h2"
    by (auto simp: copy_path_def split: if_splits option.splits)
  then show ?thesis using assms(2,3) by (rule set_member_keeps_object)
next
  case (Remove p)
  with assms(1) obtain base where "delete_member h base (last p) = Some h2"
    by (auto simp: delete_path_def split: if_splits option.splits)
  then show ?thesis using assms(2,3) by (rule delete_member_keeps_object)
qed

lemma Object_assign_keeps_object:
  assumes "h ! t = ObjO ps" and "t < length h"
  shows "\<exists>ps'. Object_assign h a b ! t = ObjO ps'"
proof (cases "a = VRef t")
  case True
  then show ?thesis using assms
    by (auto simp: Object_assign_def split: val.splits obj.splits)
next
  case False
  have "Object_assign h a b ! t = h ! t"
  proof (cases a)
    case (VRef a')
    with False have "a' \<noteq> t" by simp
    then show ?thesis using VRef by (auto simp: Object_assign_def split: val.splits obj.splits)
  qed (simp_all add: Object_assign_def)
  then show ?thesis using assms(1) by simp
qed

lemma fc_step_keeps_object:
  assumes "heap st ! t = ObjO ps" and "t < length (heap st)"
  shows "\<exists>ps'. heap (fc_step sch cb e st) ! t = ObjO ps'"
proof (cases e)
  case (Mutate m)
  show ?thesis
  proof (cases "mutate (heap st) (input st) m")
    case None
    then show ?thesis using assms(1) Mutate by simp
  next
    case (Some h2)
    from mutate_keeps_object [OF Some assms] show ?thesis
      using Mutate Some by (simp add: trigger_def watcher_start_def)
  qed
next
  case ResetE
  from Object_assign_keeps_object [OF assms] show ?thesis
    using ResetE by (simp add: trigger_def watcher_start_def fc_reset_def)
qed (use assms(1) in \<open>auto simp: on_mounted_def watcher_start_def watcher_resume_def flush_def
        fc_submit_def toggleDisplayErrors_def split: SafeParseReturnType.splits\<close>)

lemma fc_run_keeps_object:
  "heap st ! t = ObjO ps \<Longrightarrow> t < length (heap st) \<Longrightarrow> \<exists>ps'. heap (fc_run sch cb es st) ! t = ObjO ps'"
proof (induction es arbitrary: st ps)
  case Nil
  then show ?case by simp
next
  case (Cons e es)
  from fc_step_keeps_object [OF Cons.prems, of sch cb e]
  obtain ps' where p: "heap (fc_step sch cb e st) ! t = ObjO ps'" ..
  have "t < length (heap (fc_step sch cb e st))"
    using Cons.prems(2) fc_step_length [of st sch cb e] by simp
  from Cons.IH [OF p this] show ?case by simp
qed

lemma map_of_put_all_absent:
  "k \<notin> fst ` set sp \<Longrightarrow> map_of (put_all ps sp) k = map_of ps k"
proof -
  assume "k \<notin> fst ` set sp"
  then have "map_of (rev sp) k = None" by (simp add: map_of_eq_None_iff)
  then show ?thesis by (simp add: map_of_put_all map_add_def)
qed

lemma map_of_put_all_present:
  "k \<in> fst ` set sp \<Longrightarrow> map_of (put_all ps sp) k = map_of (rev sp) k"
proof -
  assume "k \<in> fst ` set sp"
  then have "map_of (rev sp) k \<noteq> None" by (simp add: map_of_eq_None_iff)
  then show ?thesis by (auto simp: map_of_put_all map_add_def)
qed

section \<open>Lemmas: the example form\<close>

lemma useForm_blank: "useForm blank_heap (VRef 0) = Inr blank_form"
  by (simp add: useForm_def deepClone_def JSON_stringify_def JSON_parse_def blank_heap_def
      blank_form_def)

lemma useFormComponent_blank:
  "useFormComponent blank_heap (VRef 0) options = Inr (blank_component options)"
  by (simp add: useFormComponent_def JSON_stringify_def JSON_parse_def blank_heap_def
      blank_component_def)

lemma check_fields_blank_form:
  "check_fields (heap blank_form) (data blank_form) =
     Failure [\<lparr>path = [SStr ''name''], message = ''Name is required''\<rparr>,
              \<lparr>path = [SStr ''email''], message = ''Email is invalid''\<rparr>]"
  by (simp add: check_fields_def name_issues_def email_issues_def get_member_def blank_form_def)

lemma check_fields_blank_component:
  "check_fields (heap (blank_component options)) (input (blank_component options)) =
     Failure [\<lparr>path = [SStr ''name''], message = ''Name is required''\<rparr>,
              \<lparr>path = [SStr ''email''], message = ''Email is invalid''\<rparr>]"
  by (simp add: check_fields_def name_issues_def email_issues_def get_member_def
      blank_component_def)

lemma fill_in_blank:
  "fc_run sch cb fill_in (blank_component options) = (blank_component options)\<lparr>heap := filled_heap\<rparr>"
  by (simp add: fill_in_def blank_component_def write_path_def get_member_def set_member_def
      trigger_def filled_heap_def)

lemma check_fields_filled:
  "check_fields filled_heap (VRef 0) =
     Success (JObj [(''name'', JStr ''Bob''), (''email'', JStr ''bob@example.com'')])"
  by (simp add: check_fields_def name_issues_def email_issues_def get_member_def filled_heap_def)

lemma fill_ops_blank: "run sch cb fill_ops blank_form = filled_form"
  by (simp add: fill_ops_def blank_form_def filled_form_def write_path_def
      get_member_def set_member_def)

lemma check_fields_filled_form:
  "check_fields (heap filled_form) (data filled_form) =
     Success (JObj [(''name'', JStr ''Bob''), (''email'', JStr ''bob@example.com'')])"
  by (simp add: check_fields_def name_issues_def email_issues_def get_member_def filled_form_def)

lemma mounted_resolved_blank:
  "parseResultRef (fc_run sch cb [Mounted, Resolved 0] (blank_component options))
     = Some (safeParseAsync sch (heap (blank_component options)) (VRef 0))"
  by (simp add: on_mounted_def watcher_start_def watcher_resume_def blank_component_def)

lemma closed_blank_heap: "closed_on {..<length blank_heap} blank_heap"
  by (simp add: closed_on_def blank_heap_def)

lemma add_nickname_blank:
  "fc_run sch cb add_nickname (blank_component options) =
     (blank_component options)
       \<lparr>heap := [ObjO [(''name'', VStr ''Bob''), (''email'', VStr []), (''nickname'', VStr ''bobby'')],
                 ObjO [(''name'', VStr []), (''email'', VStr [])]]\<rparr>"
  by (simp add: add_nickname_def blank_component_def write_path_def get_member_def set_member_def
      trigger_def)

section \<open>Lemmas: \<^verbatim>\<open>changedAt\<close> and \<^verbatim>\<open>status\<close>\<close>

lemma changedAt_assign: "changedAt (assign m st) = changedAt st"
  by (cases m) (auto split: option.splits prod.splits)

lemma changedAt_step: "changedAt st = None \<Longrightarrow> changedAt (step sch cb x st) = None"
  by (cases x)
     (auto simp: changedAt_assign reset_def submit_def toggleDisplayErrors_def
        split: SafeParseReturnType.splits sum.splits option.splits prod.splits)

lemma changedAt_run: "changedAt st = None \<Longrightarrow> changedAt (run sch cb xs st) = None"
  by (induction xs arbitrary: st) (simp_all add: changedAt_step)

lemma changedAt_fc_step: "changedAt st = None \<Longrightarrow> changedAt (fc_step sch cb e st) = None"
  by (cases e)
     (auto simp: on_mounted_def watcher_start_def watcher_resume_def trigger_def flush_def fc_submit_def
        fc_reset_def toggleDisplayErrors_def split: option.splits SafeParseReturnType.splits)

lemma changedAt_fc_run: "changedAt st = None \<Longrightarrow> changedAt (fc_run sch cb es st) = None"
  by (induction es arbitrary: st) (simp_all add: changedAt_fc_step)

lemma useForm_changedAt: "useForm h init = Inr st \<Longrightarrow> changedAt st = None"
  by (auto simp: useForm_def split: sum.splits)

lemma useFormComponent_bob: "useFormComponent bob_heap (VRef 0) None = Inr bob_component"
  by (simp add: useFormComponent_def JSON_stringify_def JSON_parse_def bob_heap_def
      bob_component_def)

lemma status_changes:
  assumes "status (fc_step sch cb e st) \<noteq> status st"
  shows "((e = Mounted \<or> e = Flush) \<and> (\<exists>st'. fc_step sch cb e st = watcher_start sch st'))
       \<or> (\<exists>i. e = Resolved i \<and> i < length (pending st))"
proof (cases e)
  case Mounted
  then show ?thesis using assms by (auto simp: on_mounted_def)
next
  case (Mutate m)
  then show ?thesis using assms by (auto simp: trigger_def split: option.splits if_splits)
next
  case Flush
  then show ?thesis using assms by (auto simp: flush_def split: if_splits)
next
  case (Resolved i)
  then show ?thesis using assms by (auto simp: watcher_resume_def split: if_splits)
next
  case SubmitE
  then show ?thesis using assms
    by (auto simp: fc_submit_def split: SafeParseReturnType.splits if_splits)
next
  case ResetE
  then show ?thesis using assms by (auto simp: trigger_def fc_reset_def split: if_splits)
next
  case ToggleE
  then show ?thesis using assms by (simp add: toggleDisplayErrors_def)
qed

lemma pending_of_step:
  "pending (fc_step sch cb e st) = pending st
   \<or> (\<exists>st'. fc_step sch cb e st = watcher_start sch st')
   \<or> (\<exists>i. e = Resolved i \<and> i < length (pending st))"
proof (cases e)
  case Mounted
  then show ?thesis by (auto simp: on_mounted_def)
next
  case (Mutate m)
  then show ?thesis by (auto simp: trigger_def split: option.splits if_splits)
next
  case Flush
  then show ?thesis by (auto simp: flush_def split: if_splits)
next
  case (Resolved i)
  then show ?thesis by (auto simp: watcher_resume_def split: if_splits)
next
  case SubmitE
  then show ?thesis by (auto simp: fc_submit_def split: SafeParseReturnType.splits if_splits)
next
  case ResetE
  then show ?thesis by (auto simp: trigger_def fc_reset_def split: if_splits)
next
  case ToggleE
  then show ?thesis by (simp add: toggleDisplayErrors_def)
qed

lemma mutations_only_queue:
  "status (fc_run sch cb (map Mutate ms) st) = status st
   \<and> pending (fc_run sch cb (map Mutate ms) st) = pending st"
proof (induction ms arbitrary: st)
  case Nil
  show ?case by simp
next
  case (Cons m ms)
  have "status (fc_step sch cb (Mutate m) st) = status st
      \<and> pending (fc_step sch cb (Mutate m) st) = pending st"
    by (simp add: trigger_def split: option.splits)
  with Cons [of "fc_step sch cb (Mutate m) st"] show ?case by simp
qed

lemma quiet_step:
  assumes "status st \<noteq> Parsing \<longrightarrow> pending st = []" and "length (pending st) \<le> 1"
  shows "(status (fc_step sch cb e st) = status st
           \<or> spec_transition (status st) (status (fc_step sch cb e st)))
       \<and> (status (fc_step sch cb e st) \<noteq> Parsing \<longrightarrow> pending (fc_step sch cb e st) = [])"
proof (cases "\<exists>st'. fc_step sch cb e st = watcher_start sch st'")
  case True
  then obtain st' where "fc_step sch cb e st = watcher_start sch st'" ..
  then have "status (fc_step sch cb e st) = Parsing" by (simp add: watcher_start_def)
  then show ?thesis by (cases "status st") simp_all
next
  case nw: False
  show ?thesis
  proof (cases "\<exists>i. e = Resolved i \<and> i < length (pending st)")
    case True
    then obtain i where i: "e = Resolved i" "i < length (pending st)" by blast
    with assms(2) have one: "length (pending st) = 1" "i = 0" by simp_all
    with assms(1) have p: "status st = Parsing" by auto
    have "pending (fc_step sch cb e st) = []" using i one by (simp add: watcher_resume_def)
    moreover have "status (fc_step sch cb e st) = Valid \<or> status (fc_step sch cb e st) = Invalid"
      using i by (simp add: watcher_resume_def)
    ultimately show ?thesis using p by auto
  next
    case False
    with nw have "status (fc_step sch cb e st) = status st"
      using status_changes [of sch cb e st] by blast
    moreover from False nw have "pending (fc_step sch cb e st) = pending st"
      using pending_of_step [of sch cb e st] by blast
    ultimately show ?thesis using assms(1) by simp
  qed
qed

lemma quiet_follows_spec:
  "status st \<noteq> Parsing \<longrightarrow> pending st = [] \<Longrightarrow> quiet sch cb es st \<Longrightarrow> follows_spec sch cb es st"
proof (induction es arbitrary: st)
  case Nil
  then show ?case by simp
next
  case (Cons e es)
  from Cons.prems(2) have l: "length (pending st) \<le> 1" and q: "quiet sch cb es (fc_step sch cb e st)"
    by simp_all
  from quiet_step [OF Cons.prems(1) l, of sch cb e]
  have t: "status (fc_step sch cb e st) = status st
           \<or> spec_transition (status st) (status (fc_step sch cb e st))"
    and j: "status (fc_step sch cb e st) \<noteq> Parsing \<longrightarrow> pending (fc_step sch cb e st) = []"
    by simp_all
  from Cons.IH [OF j q] t show ?case by simp
qed

lemmas example_run_defs =
  blank_component_def on_mounted_def watcher_start_def watcher_resume_def trigger_def flush_def
  write_path_def get_member_def set_member_def fields_schema_def check_fields_def
  name_issues_def email_issues_def

section \<open>The claims\<close>

text \<open>
  Claim C1. In \<^verbatim>\<open>useForm\<close>, for every schema, state and \<^verbatim>\<open>onSubmit\<close> callback: when
  \<^verbatim>\<open>schema.safeParse\<close> of the current data fails, \<^verbatim>\<open>submit()\<close> does not invoke
  \<^verbatim>\<open>onSubmit\<close>, sets \<^verbatim>\<open>displayErrors\<close> to true, leaves the data as it was (the same
  reference, the same heap, hence the same value in depth), returns \<^verbatim>\<open>undefined\<close> and
  throws nothing.
\<close>

theorem C1_submit_invalid:
  assumes "safeParse sch (heap st) (data st) = Failure errors"
  shows "onSubmit_calls (submit sch onSubmit st) = []
       \<and> displayErrors (after (submit sch onSubmit st)) = True
       \<and> data (after (submit sch onSubmit st)) = data st
       \<and> heap (after (submit sch onSubmit st)) = heap st
       \<and> snapshot (heap (after (submit sch onSubmit st))) [] (data (after (submit sch onSubmit st)))
           = snapshot (heap st) [] (data st)
       \<and> completion (submit sch onSubmit st) = Inr ()"
  using assms by (simp add: submit_def)

theorem C1_submit_invalid_witness:
  "safeParse fields_schema (heap blank_form) (data blank_form) =
     Failure [\<lparr>path = [SStr ''name''], message = ''Name is required''\<rparr>,
              \<lparr>path = [SStr ''email''], message = ''Email is invalid''\<rparr>]
   \<and> onSubmit_calls (submit fields_schema log_only blank_form) = []
   \<and> displayErrors (after (submit fields_schema log_only blank_form)) = True
   \<and> data (after (submit fields_schema log_only blank_form)) = VRef 1
   \<and> heap (after (submit fields_schema log_only blank_form)) = heap blank_form
   \<and> completion (submit fields_schema log_only blank_form) = Inr ()"
proof -
  have f: "safeParse fields_schema (heap blank_form) (data blank_form) =
     Failure [\<lparr>path = [SStr ''name''], message = ''Name is required''\<rparr>,
              \<lparr>path = [SStr ''email''], message = ''Email is invalid''\<rparr>]"
    by (simp add: fields_schema_def check_fields_blank_form)
  have "data blank_form = VRef 1" by (simp add: blank_form_def)
  then show ?thesis using C1_submit_invalid [OF f, of log_only] f by simp
qed

text \<open>
  Claim C2. In \<^verbatim>\<open>useFormComponent\<close>, in every state a controller built with \<open>options\<close>
  can reach: when \<^verbatim>\<open>schema.safeParse\<close> of the current input fails, \<^verbatim>\<open>submit()\<close> throws the
  validator's error (the issues), does not invoke \<^verbatim>\<open>onSubmit\<close>, and sets
  \<^verbatim>\<open>displayErrors\<close> to true exactly when \<^verbatim>\<open>mutateDisplayErrorsOnError\<close> was given as
  true (otherwise \<^verbatim>\<open>displayErrors\<close> keeps its value); when the parse succeeds, \<^verbatim>\<open>submit()\<close>
  invokes \<^verbatim>\<open>onSubmit\<close> on the parsed data and returns what the callback returns.
\<close>

theorem C2_fc_submit:
  assumes "useFormComponent h inp options = Inr st0"
    and "st = fc_run sch' cb es st0"
  shows "(\<forall>errors. safeParse sch (heap st) (input st) = Failure errors \<longrightarrow>
            completion (fc_submit sch onSubmit st) = Inl (ZodError errors)
          \<and> onSubmit_calls (fc_submit sch onSubmit st) = []
          \<and> displayErrors (after (fc_submit sch onSubmit st))
              = (if \<exists>os. options = Some os \<and> mutateDisplayErrorsOnError os = Some True then True
                 else displayErrors st))
       \<and> (\<forall>d r. safeParse sch (heap st) (input st) = Success d \<and> onSubmit d = Inr r \<longrightarrow>
            completion (fc_submit sch onSubmit st) = Inr r
          \<and> onSubmit_calls (fc_submit sch onSubmit st) = [d])"
proof -
  have "opts st = options"
    using assms by (simp add: fc_run_consts useFormComponent_consts)
  then show ?thesis
    by (auto simp: fc_submit_def mutate_on_error_def split: option.splits)
qed

theorem C2_fc_submit_witness:
  "completion (fc_submit fields_schema log_only (blank_component show_on_error))
     = Inl (ZodError [\<lparr>path = [SStr ''name''], message = ''Name is required''\<rparr>,
                      \<lparr>path = [SStr ''email''], message = ''Email is invalid''\<rparr>])
   \<and> onSubmit_calls (fc_submit fields_schema log_only (blank_component show_on_error)) = []
   \<and> displayErrors (after (fc_submit fields_schema log_only (blank_component show_on_error))) = True
   \<and> displayErrors (after (fc_submit fields_schema log_only (blank_component None))) = False
   \<and> completion (fc_submit fields_schema log_only
         (fc_run fields_schema log_only fill_in (blank_component None))) = Inr ()
   \<and> onSubmit_calls (fc_submit fields_schema log_only
         (fc_run fields_schema log_only fill_in (blank_component None)))
       = [JObj [(''name'', JStr ''Bob''), (''email'', JStr ''bob@example.com'')]]"
proof -
  have bad: "safeParse fields_schema (heap (blank_component options)) (input (blank_component options))
      = Failure [\<lparr>path = [SStr ''name''], message = ''Name is required''\<rparr>,
                 \<lparr>path = [SStr ''email''], message = ''Email is invalid''\<rparr>]" for options
    by (simp add: fields_schema_def check_fields_blank_component)
  have good: "safeParse fields_schema
        (heap (fc_run fields_schema log_only fill_in (blank_component None)))
        (input (fc_run fields_schema log_only fill_in (blank_component None)))
      = Success (JObj [(''name'', JStr ''Bob''), (''email'', JStr ''bob@example.com'')])"
    unfolding fill_in_blank
    by (simp add: fields_schema_def check_fields_filled blank_component_def)
  have d0: "displayErrors (blank_component None) = False" by (simp add: blank_component_def)
  note a = C2_fc_submit [OF useFormComponent_blank, where es = "[]" and sch = fields_schema
      and onSubmit = log_only and options = show_on_error, simplified]
  note b = C2_fc_submit [OF useFormComponent_blank, where es = "[]" and sch = fields_schema
      and onSubmit = log_only and options = None, simplified]
  note c = C2_fc_submit [OF useFormComponent_blank refl, where es = fill_in and sch = fields_schema
      and sch' = fields_schema and cb = log_only and onSubmit = log_only and options = None]
  show ?thesis
    using a b c bad good d0 by (simp add: show_on_error_def log_only_def)
qed

text \<open>
  Claim C3. In both variants, when the current parse result is a failure, \<^verbatim>\<open>getErrors(path)\<close>
  is the issues whose path joined with \<^verbatim>\<open>'.'\<close> equals the queried path joined with
  \<^verbatim>\<open>'.'\<close>, in their original order; so \<^verbatim>\<open>getErrors('a.b')\<close> and
  \<^verbatim>\<open>getErrors('a', 'b')\<close> return the same issues.
\<close>

theorem C3_getErrors_exact:
  "(parseResult sch st = Failure errors \<longrightarrow>
      getErrors sch st qpath = filter (\<lambda>e. join (path e) ''.'' = join qpath ''.'') errors
    \<and> subseq (getErrors sch st qpath) errors
    \<and> getErrors sch st [SStr ''a.b''] = getErrors sch st [SStr ''a'', SStr ''b''])
 \<and> (parseResultRef cst = Some (Failure errors) \<longrightarrow>
      fc_getErrors cst qpath = filter (\<lambda>e. join (path e) ''.'' = join qpath ''.'') errors
    \<and> subseq (fc_getErrors cst qpath) errors
    \<and> fc_getErrors cst [SStr ''a.b''] = fc_getErrors cst [SStr ''a'', SStr ''b''])"
  by (simp add: getErrors_def fc_getErrors_def join_def)

theorem C3_getErrors_exact_witness:
  "getErrors dotted_schema blank_form [SStr ''a'', SStr ''b'']
     = [\<lparr>path = [SStr ''a'', SStr ''b''], message = ''nested''\<rparr>,
        \<lparr>path = [SStr ''a.b''], message = ''dotted''\<rparr>]
   \<and> getErrors dotted_schema blank_form [SStr ''a.b''] = getErrors dotted_schema blank_form [SStr ''a'', SStr ''b'']
   \<and> fc_getErrors (fc_run dotted_schema log_only [Mounted, Resolved 0] (blank_component None))
        [SStr ''a'', SStr ''b'']
     = [\<lparr>path = [SStr ''a'', SStr ''b''], message = ''nested''\<rparr>,
        \<lparr>path = [SStr ''a.b''], message = ''dotted''\<rparr>]
   \<and> fc_getErrors (fc_run dotted_schema log_only [Mounted, Resolved 0] (blank_component None))
        [SStr ''a.b'']
     = fc_getErrors (fc_run dotted_schema log_only [Mounted, Resolved 0] (blank_component None))
        [SStr ''a'', SStr ''b'']"
proof -
  let ?errors = "[\<lparr>path = [SStr ''a'', SStr ''b''], message = ''nested''\<rparr>,
                  \<lparr>path = [SStr ''a.b''], message = ''dotted''\<rparr>,
                  \<lparr>path = [SStr ''a''], message = ''outer''\<rparr>]"
  let ?cst = "fc_run dotted_schema log_only [Mounted, Resolved 0] (blank_component None)"
  have p: "parseResult dotted_schema blank_form = Failure ?errors"
    by (simp add: parseResult_def dotted_schema_def)
  have q: "parseResultRef ?cst = Some (Failure ?errors)"
    unfolding mounted_resolved_blank by (simp add: dotted_schema_def)
  show ?thesis
    using C3_getErrors_exact [of dotted_schema blank_form ?errors "[SStr ''a'', SStr ''b'']" ?cst] p q
    by (simp add: join_def)
qed

text \<open>
  Claim C4. For every path, \<^verbatim>\<open>getErrors(path)\<close> is empty when the current parse result is a
  success (both variants) and, in \<^verbatim>\<open>useFormComponent\<close>, when \<^verbatim>\<open>parseResult\<close> is still
  \<^verbatim>\<open>null\<close>, as it is when the controller has just been built.
\<close>

theorem C4_getErrors_empty:
  "(success (parseResult sch st) \<longrightarrow> getErrors sch st qpath = [])
 \<and> ((\<exists>d. parseResultRef cst = Some (Success d)) \<longrightarrow> fc_getErrors cst qpath = [])
 \<and> (parseResultRef cst = None \<longrightarrow> fc_getErrors cst qpath = [])
 \<and> (useFormComponent h inp options = Inr cst \<longrightarrow> parseResultRef cst = None)"
  by (auto simp: getErrors_def fc_getErrors_def useFormComponent_consts
      split: SafeParseReturnType.splits)

theorem C4_getErrors_empty_witness:
  "success (parseResult fields_schema filled_form)
   \<and> getErrors fields_schema filled_form [SStr ''name''] = []
   \<and> parseResultRef (fc_run fields_schema log_only [Mounted, Resolved 0]
        (fc_run fields_schema log_only fill_in (blank_component None)))
      = Some (Success (JObj [(''name'', JStr ''Bob''), (''email'', JStr ''bob@example.com'')]))
   \<and> fc_getErrors (fc_run fields_schema log_only [Mounted, Resolved 0]
        (fc_run fields_schema log_only fill_in (blank_component None))) [SStr ''name''] = []
   \<and> useFormComponent blank_heap (VRef 0) None = Inr (blank_component None)
   \<and> parseResultRef (blank_component None) = None
   \<and> fc_getErrors (blank_component None) [SStr ''name''] = []"
proof -
  let ?cst = "fc_run fields_schema log_only [Mounted, Resolved 0]
        (fc_run fields_schema log_only fill_in (blank_component None))"
  have p: "success (parseResult fields_schema filled_form)"
    by (simp add: parseResult_def fields_schema_def check_fields_filled_form)
  have q: "parseResultRef ?cst
      = Some (Success (JObj [(''name'', JStr ''Bob''), (''email'', JStr ''bob@example.com'')]))"
    unfolding fill_in_blank
    by (simp add: on_mounted_def watcher_start_def watcher_resume_def blank_component_def
        fields_schema_def check_fields_filled)
  note a = C4_getErrors_empty [of fields_schema filled_form "[SStr ''name'']" ?cst]
  note b = C4_getErrors_empty [of fields_schema filled_form "[SStr ''name'']" "blank_component None"
      blank_heap "VRef 0" None]
  show ?thesis using a b p q useFormComponent_blank [of None] by simp
qed

text \<open>
  Claim C5. \<^verbatim>\<open>reset()\<close> is idempotent in every state a controller can reach. In
  \<^verbatim>\<open>useForm\<close>, \<^verbatim>\<open>reset()\<close> succeeds, and the data after two calls in succession has the
  value it has after one. In \<^verbatim>\<open>useFormComponent\<close>, the second of two calls in succession
  changes nothing in the heap. After any call \<^verbatim>\<open>displayErrors\<close> is false and
  \<^verbatim>\<open>changedAt\<close> is \<^verbatim>\<open>null\<close>.
\<close>

theorem C5_reset_idempotent:
  "(useForm h0 init = Inr st0 \<and> st = run sch onSubmit ops st0 \<longrightarrow>
      fst (reset st) = Inr () \<and> fst (reset (snd (reset st))) = Inr ()
    \<and> (\<exists>t. snapshot (heap (snd (reset st))) [] (data (snd (reset st))) = Inr t
          \<and> snapshot (heap (snd (reset (snd (reset st))))) [] (data (snd (reset (snd (reset st)))))
              = Inr t)
    \<and> displayErrors (snd (reset st)) = False \<and> changedAt (snd (reset st)) = None
    \<and> displayErrors (snd (reset (snd (reset st)))) = False
    \<and> changedAt (snd (reset (snd (reset st)))) = None)
 \<and> (useFormComponent h1 inp options = Inr c0 \<and> c = fc_run sch' cb es c0 \<longrightarrow>
      heap (fc_reset (fc_reset c)) = heap (fc_reset c)
    \<and> input (fc_reset (fc_reset c)) = input (fc_reset c)
    \<and> snapshot (heap (fc_reset (fc_reset c))) [] (input (fc_reset (fc_reset c)))
        = snapshot (heap (fc_reset c)) [] (input (fc_reset c))
    \<and> displayErrors (fc_reset c) = False \<and> changedAt (fc_reset c) = None
    \<and> displayErrors (fc_reset (fc_reset c)) = False \<and> changedAt (fc_reset (fc_reset c)) = None)"
proof (intro conjI impI)
  assume a: "useForm h0 init = Inr st0 \<and> st = run sch onSubmit ops st0"
  then have u: "useForm h0 init = Inr st0" and s: "st = run sch onSubmit ops st0" by simp_all
  from u s obtain t j where j: "json_of t = Some j"
    and r1: "reset st = (Inr (), st\<lparr>heap := snd (alloc j (heap st)), data := fst (alloc j (heap st)),
                                 changedAt := None, displayErrors := False\<rparr>)"
    and s1: "snapshot (snd (alloc j (heap st))) [] (fst (alloc j (heap st))) = Inr j"
    by (rule reset_reachable)
  define st1 where "st1 = snd (reset st)"
  have st1: "st1 = run sch onSubmit (ops @ [Reset]) st0" by (simp add: st1_def run_append s)
  from u st1 obtain t' j' where t': "snapshot h0 [] init = Inr t'" and j': "json_of t' = Some j'"
    and r2: "reset st1 = (Inr (), st1\<lparr>heap := snd (alloc j' (heap st1)), data := fst (alloc j' (heap st1)),
                                 changedAt := None, displayErrors := False\<rparr>)"
    and s2: "snapshot (snd (alloc j' (heap st1))) [] (fst (alloc j' (heap st1))) = Inr j'"
    by (rule reset_reachable)
  from u s obtain t'' j'' where "snapshot h0 [] init = Inr t''" "json_of t'' = Some j''"
    and r1': "reset st = (Inr (), st\<lparr>heap := snd (alloc j'' (heap st)), data := fst (alloc j'' (heap st)),
                                 changedAt := None, displayErrors := False\<rparr>)"
    and s1': "snapshot (snd (alloc j'' (heap st))) [] (fst (alloc j'' (heap st))) = Inr j''"
    by (rule reset_reachable)
  with t' j' have jj: "j'' = j'" by simp
  show "fst (reset st) = Inr ()" by (simp add: r1)
  show "fst (reset (snd (reset st))) = Inr ()" using r2 by (simp add: st1_def)
  show "\<exists>t. snapshot (heap (snd (reset st))) [] (data (snd (reset st))) = Inr t
          \<and> snapshot (heap (snd (reset (snd (reset st))))) [] (data (snd (reset (snd (reset st)))))
              = Inr t"
    using s1' s2 r1' r2 jj unfolding st1_def by (intro exI [of _ j']) simp
  show "displayErrors (snd (reset st)) = False" by (simp add: r1)
  show "changedAt (snd (reset st)) = None" by (simp add: r1)
  show "displayErrors (snd (reset (snd (reset st)))) = False" using r2 by (simp add: st1_def)
  show "changedAt (snd (reset (snd (reset st)))) = None" using r2 by (simp add: st1_def)
next
  assume a: "useFormComponent h1 inp options = Inr c0 \<and> c = fc_run sch' cb es c0"
  then have h: "heap (fc_reset (fc_reset c)) = heap (fc_reset c)"
    using fc_reset_twice by blast
  show "heap (fc_reset (fc_reset c)) = heap (fc_reset c)" by (rule h)
  show "input (fc_reset (fc_reset c)) = input (fc_reset c)" by (simp add: fc_reset_def)
  show "snapshot (heap (fc_reset (fc_reset c))) [] (input (fc_reset (fc_reset c)))
        = snapshot (heap (fc_reset c)) [] (input (fc_reset c))"
    unfolding h by (simp add: fc_reset_def)
qed (simp_all add: fc_reset_def)

theorem C5_reset_idempotent_witness:
  "fst (reset (run fields_schema log_only fill_ops blank_form)) = Inr ()
   \<and> fst (reset (snd (reset (run fields_schema log_only fill_ops blank_form)))) = Inr ()
   \<and> snapshot (heap (snd (reset (run fields_schema log_only fill_ops blank_form)))) []
        (data (snd (reset (run fields_schema log_only fill_ops blank_form))))
      = Inr (JObj [(''name'', JStr []), (''email'', JStr [])])
   \<and> snapshot (heap (snd (reset (snd (reset (run fields_schema log_only fill_ops blank_form)))))) []
        (data (snd (reset (snd (reset (run fields_schema log_only fill_ops blank_form))))))
      = Inr (JObj [(''name'', JStr []), (''email'', JStr [])])
   \<and> displayErrors (snd (reset (run fields_schema log_only fill_ops blank_form))) = False
   \<and> changedAt (snd (reset (run fields_schema log_only fill_ops blank_form))) = None
   \<and> heap (fc_reset (fc_run fields_schema log_only fill_in (blank_component None))) = heap (blank_component None)
   \<and> heap (fc_reset (fc_reset (fc_run fields_schema log_only fill_in (blank_component None))))
      = heap (blank_component None)
   \<and> displayErrors (fc_reset (fc_run fields_schema log_only fill_in (blank_component None))) = False
   \<and> changedAt (fc_reset (fc_run fields_schema log_only fill_in (blank_component None))) = None"
proof -
  let ?st = "run fields_schema log_only fill_ops blank_form"
  let ?c = "fc_run fields_schema log_only fill_in (blank_component None)"
  have once: "snapshot (heap (snd (reset ?st))) [] (data (snd (reset ?st)))
      = Inr (JObj [(''name'', JStr []), (''email'', JStr [])])"
    unfolding fill_ops_blank
    by (simp add: reset_def deepClone_def JSON_stringify_def JSON_parse_def filled_form_def)
  have assigned: "heap (fc_reset ?c) = heap (blank_component None)"
    unfolding fill_in_blank
    by (simp add: fc_reset_def Object_assign_def put_all_def blank_component_def filled_heap_def)
  note th = C5_reset_idempotent [of blank_heap "VRef 0" blank_form ?st fields_schema log_only fill_ops
      blank_heap "VRef 0" None "blank_component None" ?c fields_schema log_only fill_in]
  from th useForm_blank have sync:
    "fst (reset ?st) = Inr () \<and> fst (reset (snd (reset ?st))) = Inr ()
    \<and> (\<exists>t. snapshot (heap (snd (reset ?st))) [] (data (snd (reset ?st))) = Inr t
          \<and> snapshot (heap (snd (reset (snd (reset ?st))))) [] (data (snd (reset (snd (reset ?st)))))
              = Inr t)
    \<and> displayErrors (snd (reset ?st)) = False \<and> changedAt (snd (reset ?st)) = None"
    by blast
  from th useFormComponent_blank [of None] have async:
    "heap (fc_reset (fc_reset ?c)) = heap (fc_reset ?c)
    \<and> displayErrors (fc_reset ?c) = False \<and> changedAt (fc_reset ?c) = None"
    by blast
  from sync once have twice: "snapshot (heap (snd (reset (snd (reset ?st))))) []
        (data (snd (reset (snd (reset ?st))))) = Inr (JObj [(''name'', JStr []), (''email'', JStr [])])"
    by auto
  show ?thesis using sync async once twice assigned by simp
qed

text \<open>
  Claim C6, as amended. \<^verbatim>\<open>useForm\<close> copies \<^verbatim>\<open>initialData\<close> through a JSON round trip into
  data of its own. After any sequence of operations on the controller (mutations of its
  data: writing a newly built value, linking a value of the data at another place, removing
  a member; submit, reset, toggle), every object that existed before the construction is
  as it was, so the caller's \<^verbatim>\<open>initialData\<close> has the value it had; and
  \<^verbatim>\<open>reset()\<close> succeeds and gives the data the value of the JSON text of the original
  \<^verbatim>\<open>initialData\<close>, which is the value of \<^verbatim>\<open>initialData\<close> itself when that is JSON-safe.
\<close>

theorem C6_initialData_preserved:
  assumes "useForm h0 init = Inr st0" and "st = run sch onSubmit ops st0"
  shows "take (length h0) (heap st) = h0
       \<and> owns h0 st
       \<and> initialData st = init
       \<and> snapshot (heap st) [] init = snapshot h0 [] init
       \<and> (\<exists>t j. snapshot h0 [] init = Inr t \<and> json_of t = Some j
            \<and> fst (reset st) = Inr ()
            \<and> snapshot (heap (snd (reset st))) [] (data (snd (reset st))) = Inr j
            \<and> (json_safe t \<longrightarrow> j = t))"
proof -
  have o: "owns h0 st" and i: "initialData st = init"
    using owns_useForm [OF assms(1)] by (simp_all add: assms(2) owns_run initialData_run)
  then have p: "prefix h0 (heap st)" by (simp add: owns_def extends_prefix)
  then have tk: "take (length h0) (heap st) = h0" by (auto simp: prefix_def)
  from assms obtain t j where t: "snapshot h0 [] init = Inr t" and j: "json_of t = Some j"
    and r: "reset st = (Inr (), st\<lparr>heap := snd (alloc j (heap st)), data := fst (alloc j (heap st)),
                                 changedAt := None, displayErrors := False\<rparr>)"
    and s: "snapshot (snd (alloc j (heap st))) [] (fst (alloc j (heap st))) = Inr j"
    by (rule reset_reachable)
  have same: "snapshot (heap st) [] init = snapshot h0 [] init"
    using snapshot_prefix [OF p t] t by simp
  have "json_safe t \<longrightarrow> j = t" using j by (auto dest: json_of_safe)
  with t j r s have "\<exists>t j. snapshot h0 [] init = Inr t \<and> json_of t = Some j
            \<and> fst (reset st) = Inr ()
            \<and> snapshot (heap (snd (reset st))) [] (data (snd (reset st))) = Inr j
            \<and> (json_safe t \<longrightarrow> j = t)"
    by (intro exI [of _ t] exI [of _ j]) simp
  with tk o i same show ?thesis by blast
qed

theorem C6_initialData_preserved_witness:
  "take (length blank_heap) (heap (run fields_schema log_only fill_ops blank_form)) = blank_heap
   \<and> initialData (run fields_schema log_only fill_ops blank_form) = VRef 0
   \<and> snapshot (heap (run fields_schema log_only fill_ops blank_form)) [] (VRef 0)
       = Inr (JObj [(''name'', JStr []), (''email'', JStr [])])
   \<and> snapshot (heap (run fields_schema log_only fill_ops blank_form)) []
        (data (run fields_schema log_only fill_ops blank_form))
       = Inr (JObj [(''name'', JStr ''Bob''), (''email'', JStr ''bob@example.com'')])
   \<and> fst (reset (run fields_schema log_only fill_ops blank_form)) = Inr ()
   \<and> snapshot (heap (snd (reset (run fields_schema log_only fill_ops blank_form)))) []
        (data (snd (reset (run fields_schema log_only fill_ops blank_form))))
       = Inr (JObj [(''name'', JStr []), (''email'', JStr [])])"
proof -
  have t: "snapshot blank_heap [] (VRef 0) = Inr (JObj [(''name'', JStr []), (''email'', JStr [])])"
    by (simp add: blank_heap_def)
  have d: "snapshot (heap (run fields_schema log_only fill_ops blank_form)) []
        (data (run fields_schema log_only fill_ops blank_form))
       = Inr (JObj [(''name'', JStr ''Bob''), (''email'', JStr ''bob@example.com'')])"
    unfolding fill_ops_blank by (simp add: filled_form_def)
  show ?thesis
    using C6_initialData_preserved [OF useForm_blank refl, of fields_schema log_only fill_ops] t d
    by auto
qed

text \<open>
  Claim C6 as it was stated fails where \<^verbatim>\<open>initialData\<close> is not JSON-safe: with
  \<^verbatim>\<open>{ when: new Date(...) }\<close>, the data after \<^verbatim>\<open>reset()\<close> holds a string where
  \<^verbatim>\<open>initialData\<close> holds a \<^verbatim>\<open>Date\<close>.
\<close>

theorem C6_reset_value_counterexample:
  "useForm date_heap (VRef 1) = Inr date_form
   \<and> snapshot date_heap [] (VRef 1) = Inr (JObj [(''when'', JDate ''2024-01-01T00:00:00.000Z'')])
   \<and> fst (reset date_form) = Inr ()
   \<and> snapshot (heap (snd (reset date_form))) [] (data (snd (reset date_form)))
       = Inr (JObj [(''when'', JStr ''2024-01-01T00:00:00.000Z'')])
   \<and> snapshot (heap (snd (reset date_form))) [] (data (snd (reset date_form)))
       \<noteq> snapshot date_heap [] (VRef 1)"
  by (simp add: useForm_def reset_def deepClone_def JSON_stringify_def JSON_parse_def
      date_heap_def date_form_def)

text \<open>
  Claim C7, what the code does. \<^verbatim>\<open>changedAt\<close> is \<^verbatim>\<open>null\<close> at construction and after
  \<^verbatim>\<open>reset()\<close>; and nothing else assigns it: after any sequence of operations, mutations of
  the data among them, it is still \<^verbatim>\<open>null\<close> and \<^verbatim>\<open>hasChanged\<close> is still false (both
  variants).
\<close>

theorem C7_changedAt_stays_null:
  "(useForm h0 init = Inr st0 \<longrightarrow>
      changedAt st0 = None \<and> changedAt (snd (reset (run sch onSubmit ops st0))) = None
    \<and> changedAt (run sch onSubmit ops st0) = None \<and> \<not> hasChanged (run sch onSubmit ops st0))
 \<and> (useFormComponent h1 inp options = Inr c0 \<longrightarrow>
      changedAt c0 = None \<and> changedAt (fc_reset (fc_run sch' cb es c0)) = None
    \<and> changedAt (fc_run sch' cb es c0) = None \<and> \<not> hasChanged (fc_run sch' cb es c0))"
proof (intro conjI impI)
  assume u: "useForm h0 init = Inr st0"
  then show c: "changedAt st0 = None" by (rule useForm_changedAt)
  then show r: "changedAt (run sch onSubmit ops st0) = None" by (rule changedAt_run)
  then show "\<not> hasChanged (run sch onSubmit ops st0)" by (simp add: hasChanged_def)
  from r have "changedAt (step sch onSubmit Reset (run sch onSubmit ops st0)) = None"
    by (rule changedAt_step)
  then show "changedAt (snd (reset (run sch onSubmit ops st0))) = None" by simp
next
  assume u: "useFormComponent h1 inp options = Inr c0"
  then show c: "changedAt c0 = None" by (simp add: useFormComponent_consts)
  then show r: "changedAt (fc_run sch' cb es c0) = None" by (rule changedAt_fc_run)
  then show "\<not> hasChanged (fc_run sch' cb es c0)" by (simp add: hasChanged_def)
  show "changedAt (fc_reset (fc_run sch' cb es c0)) = None" by (simp add: fc_reset_def)
qed

theorem C7_changedAt_stays_null_witness:
  "snapshot (heap (run fields_schema log_only fill_ops blank_form)) []
      (data (run fields_schema log_only fill_ops blank_form))
     = Inr (JObj [(''name'', JStr ''Bob''), (''email'', JStr ''bob@example.com'')])
   \<and> snapshot (heap blank_form) [] (data blank_form)
     = Inr (JObj [(''name'', JStr []), (''email'', JStr [])])
   \<and> changedAt (run fields_schema log_only fill_ops blank_form) = None
   \<and> hasChanged (run fields_schema log_only fill_ops blank_form) = False
   \<and> heap (fc_run fields_schema log_only (Mounted # fill_in) (blank_component None)) ! 0
     = ObjO [(''name'', VStr ''Bob''), (''email'', VStr ''bob@example.com'')]
   \<and> changedAt (fc_run fields_schema log_only (Mounted # fill_in) (blank_component None)) = None
   \<and> hasChanged (fc_run fields_schema log_only (Mounted # fill_in) (blank_component None)) = False"
proof -
  have d: "snapshot (heap (run fields_schema log_only fill_ops blank_form)) []
      (data (run fields_schema log_only fill_ops blank_form))
     = Inr (JObj [(''name'', JStr ''Bob''), (''email'', JStr ''bob@example.com'')])"
    unfolding fill_ops_blank by (simp add: filled_form_def)
  have b: "snapshot (heap blank_form) [] (data blank_form)
     = Inr (JObj [(''name'', JStr []), (''email'', JStr [])])"
    by (simp add: blank_form_def)
  have m: "heap (fc_run fields_schema log_only (Mounted # fill_in) (blank_component None)) ! 0
     = ObjO [(''name'', VStr ''Bob''), (''email'', VStr ''bob@example.com'')]"
    by (simp add: fill_in_def blank_component_def on_mounted_def watcher_start_def write_path_def
        get_member_def set_member_def trigger_def)
  note th = C7_changedAt_stays_null [of blank_heap "VRef 0" blank_form fields_schema log_only fill_ops
      blank_heap "VRef 0" None "blank_component None" fields_schema log_only "Mounted # fill_in"]
  show ?thesis using th useForm_blank useFormComponent_blank [of None] d b m by simp
qed

text \<open>
  Claim C8, as amended. In \<^verbatim>\<open>useFormComponent\<close>, \<^verbatim>\<open>status\<close> starts as parsing. Each run
  of the watcher sets it to parsing and starts a validation of the data as it is then: the
  first run at mount, then one run at each flush of the scheduler before which a mutation
  of the input has changed something. A mutation itself only queues the watcher: whatever
  their number, mutations change neither \<^verbatim>\<open>status\<close> nor the validations in flight, and a
  flush with nothing queued does nothing. When a validation resolves, \<^verbatim>\<open>status\<close> becomes
  valid on success and invalid on failure; nothing else changes it. Along a sequence of
  events in which no validation is started while another is in flight, every change of
  \<^verbatim>\<open>status\<close> is a transition of the specification.
\<close>

theorem C8_status_machine:
  "(useFormComponent h inp options = Inr c0 \<longrightarrow>
      status c0 = Parsing \<and> (quiet sch cb es c0 \<longrightarrow> follows_spec sch cb es c0))
 \<and> status (watcher_start sch st) = Parsing
 \<and> pending (watcher_start sch st) = pending st @ [safeParseAsync sch (heap st) (input st)]
 \<and> (\<not> mounted st \<longrightarrow> fc_step sch cb Mounted st = watcher_start sch (st\<lparr>mounted := True\<rparr>))
 \<and> (mounted st \<and> mutate (heap st) (input st) m = Some h' \<and> h' \<noteq> heap st \<longrightarrow>
      fc_step sch cb (Mutate m) st = st\<lparr>heap := h', queued := True\<rparr>)
 \<and> status (fc_run sch cb (map Mutate ms) st) = status st
 \<and> pending (fc_run sch cb (map Mutate ms) st) = pending st
 \<and> (queued st \<longrightarrow> fc_step sch cb Flush st = watcher_start sch (st\<lparr>queued := False\<rparr>))
 \<and> (\<not> queued st \<longrightarrow> fc_step sch cb Flush st = st)
 \<and> (i < length (pending st) \<longrightarrow>
      status (fc_step sch cb (Resolved i) st) = (if success (pending st ! i) then Valid else Invalid))
 \<and> (status (fc_step sch cb e st) \<noteq> status st \<longrightarrow>
      ((e = Mounted \<or> e = Flush) \<and> (\<exists>st'. fc_step sch cb e st = watcher_start sch st'))
    \<or> (\<exists>i. e = Resolved i \<and> i < length (pending st)))"
proof (intro conjI impI)
  assume u: "useFormComponent h inp options = Inr c0"
  then show "status c0 = Parsing" by (simp add: useFormComponent_consts)
  then have "status c0 \<noteq> Parsing \<longrightarrow> pending c0 = []" by simp
  then show "follows_spec sch cb es c0" if "quiet sch cb es c0" using that by (rule quiet_follows_spec)
next
  show "status (watcher_start sch st) = Parsing" by (simp add: watcher_start_def)
next
  show "pending (watcher_start sch st) = pending st @ [safeParseAsync sch (heap st) (input st)]"
    by (simp add: watcher_start_def)
next
  assume "\<not> mounted st"
  then show "fc_step sch cb Mounted st = watcher_start sch (st\<lparr>mounted := True\<rparr>)"
    by (simp add: on_mounted_def)
next
  assume "mounted st \<and> mutate (heap st) (input st) m = Some h' \<and> h' \<noteq> heap st"
  then show "fc_step sch cb (Mutate m) st = st\<lparr>heap := h', queued := True\<rparr>"
    by (simp add: trigger_def)
next
  show "status (fc_run sch cb (map Mutate ms) st) = status st" by (simp add: mutations_only_queue)
next
  show "pending (fc_run sch cb (map Mutate ms) st) = pending st" by (simp add: mutations_only_queue)
next
  assume "queued st"
  then show "fc_step sch cb Flush st = watcher_start sch (st\<lparr>queued := False\<rparr>)"
    by (simp add: flush_def)
next
  assume "\<not> queued st"
  then show "fc_step sch cb Flush st = st" by (simp add: flush_def)
next
  assume "i < length (pending st)"
  then show "status (fc_step sch cb (Resolved i) st) = (if success (pending st ! i) then Valid else Invalid)"
    by (simp add: watcher_resume_def)
next
  assume "status (fc_step sch cb e st) \<noteq> status st"
  then show "((e = Mounted \<or> e = Flush) \<and> (\<exists>st'. fc_step sch cb e st = watcher_start sch st'))
    \<or> (\<exists>i. e = Resolved i \<and> i < length (pending st))"
    by (rule status_changes)
qed

theorem C8_status_machine_witness:
  "useFormComponent blank_heap (VRef 0) None = Inr (blank_component None)
   \<and> status (blank_component None) = Parsing
   \<and> quiet fields_schema log_only careful_run (blank_component None)
   \<and> follows_spec fields_schema log_only careful_run (blank_component None)
   \<and> status (fc_run fields_schema log_only careful_run (blank_component None)) = Valid
   \<and> fc_step fields_schema log_only Mounted (blank_component None)
       = watcher_start fields_schema ((blank_component None)\<lparr>mounted := True\<rparr>)
   \<and> fc_step fields_schema log_only Flush (blank_component None) = blank_component None
   \<and> status (fc_run fields_schema log_only [Mounted] (blank_component None)) = Parsing
   \<and> status (fc_step fields_schema log_only (Resolved 0)
         (fc_run fields_schema log_only [Mounted] (blank_component None))) = Invalid
   \<and> (\<exists>i. Resolved 0 = Resolved i
          \<and> i < length (pending (fc_run fields_schema log_only [Mounted] (blank_component None))))
   \<and> status (fc_run fields_schema log_only [Mounted, Resolved 0] (blank_component None)) = Invalid
   \<and> queued (fc_step fields_schema log_only (Mutate (Write [SStr ''name''] (JStr ''Bob'')))
         (fc_run fields_schema log_only [Mounted, Resolved 0] (blank_component None)))
   \<and> status (fc_run fields_schema log_only (map Mutate filling)
         (fc_run fields_schema log_only [Mounted, Resolved 0] (blank_component None))) = Invalid
   \<and> pending (fc_run fields_schema log_only (map Mutate filling)
         (fc_run fields_schema log_only [Mounted, Resolved 0] (blank_component None))) = []
   \<and> status (fc_step fields_schema log_only Flush
         (fc_run fields_schema log_only ([Mounted, Resolved 0] @ map Mutate filling)
            (blank_component None))) = Parsing
   \<and> pending (fc_step fields_schema log_only Flush
         (fc_run fields_schema log_only ([Mounted, Resolved 0] @ map Mutate filling)
            (blank_component None)))
       = [Success (JObj [(''name'', JStr ''Bob''), (''email'', JStr ''bob@example.com'')])]"
proof -
  let ?c0 = "blank_component None :: jsval component"
  let ?c1 = "fc_run fields_schema log_only [Mounted] ?c0"
  let ?c2 = "fc_run fields_schema log_only [Mounted, Resolved 0] ?c0"
  let ?c3 = "fc_run fields_schema log_only ([Mounted, Resolved 0] @ map Mutate filling) ?c0"
  let ?c4 = "?c3\<lparr>queued := False\<rparr>"
  let ?w = "Write [SStr ''name''] (JStr ''Bob'')"
  let ?h = "[ObjO [(''name'', VStr ''Bob''), (''email'', VStr [])],
             ObjO [(''name'', VStr []), (''email'', VStr [])]]"
  have q: "quiet fields_schema log_only careful_run ?c0"
    by (simp add: careful_run_def example_run_defs)
  have fin: "status (fc_run fields_schema log_only careful_run ?c0) = Valid"
    by (simp add: careful_run_def example_run_defs)
  have nm: "\<not> mounted ?c0" and nq: "\<not> queued ?c0" by (simp_all add: blank_component_def)
  have s1: "status ?c1 = Parsing" by (simp add: example_run_defs)
  have p1: "0 < length (pending ?c1)" "\<not> success (pending ?c1 ! 0)"
    by (simp_all add: example_run_defs)
  have s2: "status ?c2 = Invalid" and p2: "pending ?c2 = []" by (simp_all add: example_run_defs)
  have w: "mounted ?c2 \<and> mutate (heap ?c2) (input ?c2) ?w = Some ?h \<and> ?h \<noteq> heap ?c2"
    by (simp add: example_run_defs)
  have q3: "queued ?c3" and p3: "pending ?c3 = []"
    by (simp_all add: filling_def example_run_defs)
  have v4: "safeParseAsync fields_schema (heap ?c4) (input ?c4)
      = Success (JObj [(''name'', JStr ''Bob''), (''email'', JStr ''bob@example.com'')])"
    by (simp add: filling_def example_run_defs)
  note a = C8_status_machine [of blank_heap "VRef 0" None ?c0 fields_schema log_only careful_run
      ?c0 ?w ?h filling 0 Mounted]
  note b = C8_status_machine [of blank_heap "VRef 0" None ?c0 fields_schema log_only careful_run
      ?c1 ?w ?h filling 0 "Resolved 0"]
  note c = C8_status_machine [of blank_heap "VRef 0" None ?c0 fields_schema log_only careful_run
      ?c2 ?w ?h filling 0 "Mutate ?w"]
  note d = C8_status_machine [of blank_heap "VRef 0" None ?c0 fields_schema log_only careful_run
      ?c3 ?w ?h filling 0 Flush]
  note e = C8_status_machine [of blank_heap "VRef 0" None ?c0 fields_schema log_only careful_run
      ?c4 ?w ?h filling 0 Flush]
  from a useFormComponent_blank [of None] q
  have a1: "status ?c0 = Parsing" and a2: "follows_spec fields_schema log_only careful_run ?c0"
    by blast+
  from a nm have a3: "fc_step fields_schema log_only Mounted ?c0
       = watcher_start fields_schema (?c0\<lparr>mounted := True\<rparr>)"
    by blast
  from a nq have a4: "fc_step fields_schema log_only Flush ?c0 = ?c0" by blast
  from b p1 have b1: "status (fc_step fields_schema log_only (Resolved 0) ?c1) = Invalid"
    by simp
  with s1 have "status (fc_step fields_schema log_only (Resolved 0) ?c1) \<noteq> status ?c1" by simp
  with b have b2: "\<exists>i. Resolved 0 = Resolved i \<and> i < length (pending ?c1)" by blast
  from c w have "fc_step fields_schema log_only (Mutate ?w) ?c2 = ?c2\<lparr>heap := ?h, queued := True\<rparr>"
    by blast
  then have c1: "queued (fc_step fields_schema log_only (Mutate ?w) ?c2)" by simp
  from c s2 have c2: "status (fc_run fields_schema log_only (map Mutate filling) ?c2) = Invalid"
    by simp
  from c p2 have c4: "pending (fc_run fields_schema log_only (map Mutate filling) ?c2) = []"
    by simp
  from d q3 have d0: "fc_step fields_schema log_only Flush ?c3 = watcher_start fields_schema ?c4"
    by blast
  from e have "status (watcher_start fields_schema ?c4) = Parsing" by blast
  with d0 have d1: "status (fc_step fields_schema log_only Flush ?c3) = Parsing" by simp
  from e have "pending (watcher_start fields_schema ?c4)
      = pending ?c4 @ [safeParseAsync fields_schema (heap ?c4) (input ?c4)]"
    by blast
  with d0 p3 v4 have d2: "pending (fc_step fields_schema log_only Flush ?c3)
      = [Success (JObj [(''name'', JStr ''Bob''), (''email'', JStr ''bob@example.com'')])]"
    by simp
  show ?thesis
    using useFormComponent_blank [of None] a1 q a2 fin a3 a4 s1 b1 b2 s2 c1 c2 c4 d1 d2 by blast
qed

text \<open>
  Claim C8 as it was stated fails when two validations are in flight together: a form
  valid at mount whose name is then emptied, the flush coming before the first validation
  resolves, goes from valid directly to invalid when the second one resolves.
\<close>

theorem C8_valid_to_invalid_counterexample:
  "useFormComponent bob_heap (VRef 0) None = Inr bob_component
   \<and> length (pending (fc_run fields_schema log_only [Mounted, erase_name, Flush] bob_component)) = 2
   \<and> status (fc_run fields_schema log_only [Mounted, erase_name, Flush, Resolved 0] bob_component)
       = Valid
   \<and> status (fc_step fields_schema log_only (Resolved 0)
        (fc_run fields_schema log_only [Mounted, erase_name, Flush, Resolved 0] bob_component))
       = Invalid
   \<and> \<not> follows_spec fields_schema log_only [Mounted, erase_name, Flush, Resolved 0, Resolved 0]
         bob_component"
  by (simp add: useFormComponent_bob erase_name_def bob_component_def on_mounted_def
      watcher_start_def watcher_resume_def trigger_def flush_def write_path_def get_member_def
      set_member_def fields_schema_def check_fields_def name_issues_def email_issues_def)

text \<open>
  Claim C9. In \<^verbatim>\<open>useFormComponent\<close>, for an input that is a plain object in a heap without
  dangling references, in every state the controller can reach: the snapshot is an object of
  its own, still as it was built, whose keys are keys the input had at construction;
  \<^verbatim>\<open>reset()\<close> keeps the reference of the input and sets the snapshot's properties on it
  (the values as they are, not copies), so every key that the snapshot does not have keeps
  its current value. When the input has a key that it did not have at construction, the
  input after \<^verbatim>\<open>reset()\<close> does not have the value it had at construction.
\<close>

theorem C9_reset_keeps_added_keys:
  assumes "closed_on {..<length h0} h0"
    and "useFormComponent h0 (VRef t) options = Inr c0"
    and "h0 ! t = ObjO tps0"
    and "c = fc_run sch cb es c0"
  shows "\<exists>s sps tps.
           initialInput c = VRef s \<and> s \<noteq> t
         \<and> heap c0 ! s = ObjO sps \<and> heap c ! s = ObjO sps \<and> fst ` set sps \<subseteq> fst ` set tps0
         \<and> heap c ! t = ObjO tps
         \<and> input (fc_reset c) = VRef t
         \<and> heap (fc_reset c) ! t = ObjO (put_all tps sps)
         \<and> (\<forall>k. k \<notin> fst ` set sps \<longrightarrow> map_of (put_all tps sps) k = map_of tps k)
         \<and> (\<forall>k \<in> fst ` set sps. map_of (put_all tps sps) k = map_of (rev sps) k)
         \<and> (\<forall>k. k \<in> fst ` set tps \<and> k \<notin> fst ` set tps0 \<longrightarrow>
              snapshot (heap (fc_reset c)) [] (input (fc_reset c)) \<noteq> snapshot h0 [] (VRef t))"
proof -
  from assms(2) obtain tr j where tr: "snapshot h0 [] (VRef t) = Inr tr" and j: "json_of tr = Some j"
    and al: "alloc j h0 = (initialInput c0, heap c0)" and inp0: "input c0 = VRef t"
    by (rule useFormComponent_Inr)
  from assms(3) tr obtain ts where tr': "tr = JObj (zip (map fst tps0) ts)"
    and lts: "length ts = length tps0"
    by (rule snapshot_ObjO_keys)
  from lts have k0: "map fst (zip (map fst tps0) ts) = map fst tps0" by simp
  from j have "json_of (JObj (zip (map fst tps0) ts)) = Some j" by (simp only: tr')
  then obtain kvs' where j': "j = JObj kvs'"
    and sub: "fst ` set kvs' \<subseteq> fst ` set (zip (map fst tps0) ts)"
    by (rule json_of_JObj_keys)
  from al have "alloc (JObj kvs') h0 = (initialInput c0, heap c0)" by (simp only: j')
  then obtain s sps where s: "initialInput c0 = VRef s" and sps: "heap c0 ! s = ObjO sps"
    and ks: "map fst sps = map fst kvs'"
    by (rule alloc_JObj_root)
  have "fst ` set sps = set (map fst sps)" by simp
  also have "\<dots> = fst ` set kvs'" by (simp add: ks)
  also have "\<dots> \<subseteq> set (map fst (zip (map fst tps0) ts))" using sub by simp
  also have "\<dots> = fst ` set tps0" by (simp only: k0) simp
  finally have keys: "fst ` set sps \<subseteq> fst ` set tps0" .
  from input_not_snapshot [OF assms(2)] s
  have ne: "s \<noteq> t" and t0: "t < length h0" and l0: "length h0 \<le> length (heap c0)"
    and sl: "s < length (heap c0)"
    by auto
  have un: "unreferenced s (heap c0)" using assms(1) al s by (auto intro: alloc_unreferenced)
  have inp: "input c = VRef t" and snap: "initialInput c = VRef s"
    using inp0 s by (simp_all add: assms(4) fc_run_consts)
  have fixed: "heap c ! s = ObjO sps"
    using fc_run_snapshot_fixed [OF un sl _ s, of sch cb es] inp0 ne sps by (simp add: assms(4))
  have e: "extends h0 (heap c0)" using alloc_snapshot(2) [OF al] .
  have "heap c0 ! t = ObjO tps0" using extends_nth [OF e t0] assms(3) by simp
  moreover have tl0: "t < length (heap c0)" using t0 l0 by simp
  ultimately obtain tps where tps: "heap c ! t = ObjO tps"
    using fc_run_keeps_object [of c0 t tps0 sch cb es] by (auto simp: assms(4))
  have lc: "length (heap c0) \<le> length (heap c)" by (simp add: assms(4) fc_run_length)
  then have tl: "t < length (heap c)" and slc: "s < length (heap c)" using tl0 sl by simp_all
  have after: "heap (fc_reset c) = (heap c)[t := ObjO (put_all tps sps)]"
    using inp snap tl slc tps fixed by (simp add: fc_reset_def Object_assign_def)
  then have at: "heap (fc_reset c) ! t = ObjO (put_all tps sps)" using tl by simp
  have inp': "input (fc_reset c) = VRef t" using inp by (simp add: fc_reset_def)
  have differs: "snapshot (heap (fc_reset c)) [] (input (fc_reset c)) \<noteq> snapshot h0 [] (VRef t)"
    if k: "k \<in> fst ` set tps \<and> k \<notin> fst ` set tps0" for k
  proof
    assume "snapshot (heap (fc_reset c)) [] (input (fc_reset c)) = snapshot h0 [] (VRef t)"
    then have "snapshot (heap (fc_reset c)) [] (VRef t) = Inr tr" using tr inp' by simp
    with at obtain ts' where "tr = JObj (zip (map fst (put_all tps sps)) ts')"
      and "length ts' = length (put_all tps sps)"
      by (rule snapshot_ObjO_keys)
    with tr' have z: "zip (map fst (put_all tps sps)) ts' = zip (map fst tps0) ts"
      and l': "length ts' = length (put_all tps sps)" by simp_all
    have "map fst (put_all tps sps) = map fst (zip (map fst (put_all tps sps)) ts')"
      using l' by simp
    also have "\<dots> = map fst (zip (map fst tps0) ts)" by (simp only: z)
    also have "\<dots> = map fst tps0" by (rule k0)
    finally have "map fst (put_all tps sps) = map fst tps0" .
    then have "fst ` set (put_all tps sps) = fst ` set tps0" by (metis set_map)
    then show False using k by (auto simp: keys_put_all)
  qed
  show ?thesis
    using snap ne sps fixed keys tps inp' at differs
    by (intro exI [of _ s] exI [of _ sps] exI [of _ tps])
       (simp add: map_of_put_all_absent map_of_put_all_present)
qed

theorem C9_reset_keeps_added_keys_witness:
  "closed_on {..<length blank_heap} blank_heap
   \<and> useFormComponent blank_heap (VRef 0) None = Inr (blank_component None)
   \<and> blank_heap ! 0 = ObjO [(''name'', VStr []), (''email'', VStr [])]
   \<and> heap (fc_run fields_schema log_only add_nickname (blank_component None)) ! 0
       = ObjO [(''name'', VStr ''Bob''), (''email'', VStr []), (''nickname'', VStr ''bobby'')]
   \<and> input (fc_reset (fc_run fields_schema log_only add_nickname (blank_component None))) = VRef 0
   \<and> heap (fc_reset (fc_run fields_schema log_only add_nickname (blank_component None))) ! 0
       = ObjO [(''name'', VStr []), (''email'', VStr []), (''nickname'', VStr ''bobby'')]
   \<and> snapshot (heap (fc_reset (fc_run fields_schema log_only add_nickname (blank_component None)))) []
        (input (fc_reset (fc_run fields_schema log_only add_nickname (blank_component None))))
       \<noteq> snapshot blank_heap [] (VRef 0)"
proof -
  let ?c = "fc_run fields_schema log_only add_nickname (blank_component None)"
  have h0: "blank_heap ! 0 = ObjO [(''name'', VStr []), (''email'', VStr [])]"
    by (simp add: blank_heap_def)
  from C9_reset_keeps_added_keys [OF closed_blank_heap useFormComponent_blank [of None] h0 refl,
      where sch = fields_schema and cb = log_only and es = add_nickname]
  obtain s sps tps where s: "initialInput ?c = VRef s"
    and sps: "heap (blank_component None) ! s = ObjO sps"
    and tps: "heap ?c ! 0 = ObjO tps"
    and inp: "input (fc_reset ?c) = VRef 0"
    and at: "heap (fc_reset ?c) ! 0 = ObjO (put_all tps sps)"
    and differs: "\<forall>k. k \<in> fst ` set tps \<and> k \<notin> fst ` set [(''name'', VStr []), (''email'', VStr [])] \<longrightarrow>
              snapshot (heap (fc_reset ?c)) [] (input (fc_reset ?c)) \<noteq> snapshot blank_heap [] (VRef 0)"
    by (elim exE conjE) (rule that)
  have s1: "s = 1" using s unfolding add_nickname_blank by (simp add: blank_component_def)
  have sps': "sps = [(''name'', VStr []), (''email'', VStr [])]"
    using sps by (simp add: s1 blank_component_def)
  have tps': "tps = [(''name'', VStr ''Bob''), (''email'', VStr []), (''nickname'', VStr ''bobby'')]"
    using tps unfolding add_nickname_blank by (simp add: blank_component_def)
  have d: "snapshot (heap (fc_reset ?c)) [] (input (fc_reset ?c)) \<noteq> snapshot blank_heap [] (VRef 0)"
    by (rule differs [rule_format, of "''nickname''"]) (simp add: tps')
  have at': "heap (fc_reset ?c) ! 0
       = ObjO [(''name'', VStr []), (''email'', VStr []), (''nickname'', VStr ''bobby'')]"
    using at by (simp add: sps' tps' put_all_def)
  show ?thesis
    using closed_blank_heap useFormComponent_blank [of None] h0 tps tps' inp at' d by simp
qed

text \<open>
  Claim C10. In \<^verbatim>\<open>useForm\<close>, with \<^verbatim>\<open>schema.safeParse\<close> a function of the data it is
  given, the parse that \<^verbatim>\<open>submit()\<close> runs is the one \<^verbatim>\<open>parseResult\<close> holds: \<^verbatim>\<open>submit()\<close>
  invokes \<^verbatim>\<open>onSubmit\<close> exactly when \<^verbatim>\<open>isValid\<close> is true, and with the data of
  \<^verbatim>\<open>parseResult\<close>.
\<close>

theorem C10_submit_iff_isValid:
  "(onSubmit_calls (submit sch onSubmit st) \<noteq> [] \<longleftrightarrow> isValid sch st)
 \<and> (\<forall>d. parseResult sch st = Success d \<longrightarrow> onSubmit_calls (submit sch onSubmit st) = [d])
 \<and> (\<not> isValid sch st \<longrightarrow> onSubmit_calls (submit sch onSubmit st) = [])
 \<and> parseResult sch st = safeParse sch (heap st) (data st)"
  by (auto simp: submit_def isValid_def parseResult_def split: SafeParseReturnType.splits)

theorem C10_submit_iff_isValid_witness:
  "isValid fields_schema filled_form
   \<and> parseResult fields_schema filled_form
       = Success (JObj [(''name'', JStr ''Bob''), (''email'', JStr ''bob@example.com'')])
   \<and> onSubmit_calls (submit fields_schema log_only filled_form)
       = [JObj [(''name'', JStr ''Bob''), (''email'', JStr ''bob@example.com'')]]
   \<and> \<not> isValid fields_schema blank_form
   \<and> onSubmit_calls (submit fields_schema log_only blank_form) = []"
proof -
  have p: "parseResult fields_schema filled_form
       = Success (JObj [(''name'', JStr ''Bob''), (''email'', JStr ''bob@example.com'')])"
    by (simp add: parseResult_def fields_schema_def check_fields_filled_form)
  have q: "\<not> isValid fields_schema blank_form"
    by (simp add: isValid_def parseResult_def fields_schema_def check_fields_blank_form)
  have v: "isValid fields_schema filled_form" using p by (simp add: isValid_def)
  have c1: "onSubmit_calls (submit fields_schema log_only filled_form)
       = [JObj [(''name'', JStr ''Bob''), (''email'', JStr ''bob@example.com'')]]"
    using C10_submit_iff_isValid [of fields_schema log_only filled_form] p by blast
  have c2: "onSubmit_calls (submit fields_schema log_only blank_form) = []"
    using C10_submit_iff_isValid [of fields_schema log_only blank_form] q by blast
  show ?thesis using v p c1 q c2 by blast
qed

end
